theory Spec2Isabelle
  imports Main
begin

section \<open>Texts and character classes\<close>

text \<open>
  The program is \<^verbatim>\<open>src/form_processor.py\<close>. Its extraction core is the class
  \<^verbatim>\<open>FormProcessor\<close>: \<^verbatim>\<open>parse_ocr_output\<close> builds a dictionary of six groups, each
  field of which is the result of one \<^verbatim>\<open>re.search\<close> of a fixed pattern in the text.

  A Python \<^verbatim>\<open>str\<close> is a sequence of code points. Here a text is a \<^typ>\<open>string\<close> whose
  characters stand for the code points below 256, one \<^typ>\<open>char\<close> for each code point.
  In that range the classes of the \<^verbatim>\<open>re\<close> module for \<^verbatim>\<open>str\<close> patterns are:
  \<^verbatim>\<open>\s\<close> is what \<^verbatim>\<open>str.isspace\<close> accepts (9 to 13, 28 to 32, 133 and 160), \<^verbatim>\<open>\d\<close> is
  the ten digits, and \<^verbatim>\<open>.\<close> is every character but the line feed unless
  \<^verbatim>\<open>re.DOTALL\<close> is set.
\<close>

definition nl :: char where
  "nl = CHR 0x0A"

definition is_space :: "char \<Rightarrow> bool" where
  "is_space c = (of_char c \<in> {9, 10, 11, 12, 13, 28, 29, 30, 31, 32, 133, 160 :: nat})"

definition is_digit :: "char \<Rightarrow> bool" where
  "is_digit c = (48 \<le> (of_char c :: nat) \<and> (of_char c :: nat) \<le> 57)"

text \<open>
  One item of a pattern that consumes exactly one character: a literal character, \<^verbatim>\<open>.\<close>,
  \<^verbatim>\<open>\s\<close>, \<^verbatim>\<open>\S\<close>, \<^verbatim>\<open>\d\<close>, or a range \<^verbatim>\<open>[a-b]\<close>.
\<close>

datatype cclass = Lit char | AnyChar | Space | NonSpace | Digit | Range char char

fun cmatch :: "bool \<Rightarrow> cclass \<Rightarrow> char \<Rightarrow> bool" where
  "cmatch dotall (Lit a) c = (c = a)"
| "cmatch dotall AnyChar c = (dotall \<or> c \<noteq> nl)"
| "cmatch dotall Space c = is_space c"
| "cmatch dotall NonSpace c = (\<not> is_space c)"
| "cmatch dotall Digit c = is_digit c"
| "cmatch dotall (Range a b) c = ((of_char a :: nat) \<le> of_char c \<and> (of_char c :: nat) \<le> of_char b)"

section \<open>The backtracking matcher of \<^verbatim>\<open>re\<close>\<close>

text \<open>
  The fragment of the pattern language that the source uses: single characters,
  concatenation, alternation \<^verbatim>\<open>a|b\<close> (left alternative first), a repetition of a
  one-character item with a lower and an optional upper bound, greedy (\<^verbatim>\<open>*\<close>, \<^verbatim>\<open>+\<close>,
  \<^verbatim>\<open>{1,2}\<close>) or lazy (\<^verbatim>\<open>*?\<close>), and the lookahead \<^verbatim>\<open>(?=...)\<close>.
\<close>

datatype regex =
    Eps
  | Chr cclass
  | Seq regex regex
  | Alt regex regex
  | Rep bool nat "nat option" cclass
  | Lookahead regex

text \<open>
  \<open>reps dotall c s\<close> lists what is left of \<open>s\<close> after consuming 0, 1, 2, ... characters
  of class \<open>c\<close>, for as long as the characters belong to the class.
\<close>

fun reps :: "bool \<Rightarrow> cclass \<Rightarrow> string \<Rightarrow> string list" where
  "reps dotall c [] = [[]]"
| "reps dotall c (x # xs) = (x # xs) # (if cmatch dotall c x then reps dotall c xs else [])"

definition bounded :: "nat \<Rightarrow> nat option \<Rightarrow> 'a list \<Rightarrow> 'a list" where
  "bounded lo hi xs = (case hi of None \<Rightarrow> drop lo xs | Some h \<Rightarrow> take (Suc h - lo) (drop lo xs))"

text \<open>
  \<open>rmatch dotall r s\<close> lists, in the order in which the backtracking matcher tries
  them, the rests of \<open>s\<close> after each way of matching \<open>r\<close> at the start of \<open>s\<close>. A greedy
  repetition tries the longest run first, a lazy one the shortest.
\<close>

fun rmatch :: "bool \<Rightarrow> regex \<Rightarrow> string \<Rightarrow> string list" where
  "rmatch dotall Eps s = [s]"
| "rmatch dotall (Chr c) s =
     (case s of [] \<Rightarrow> [] | x # xs \<Rightarrow> if cmatch dotall c x then [xs] else [])"
| "rmatch dotall (Seq a b) s = concat (map (rmatch dotall b) (rmatch dotall a s))"
| "rmatch dotall (Alt a b) s = rmatch dotall a s @ rmatch dotall b s"
| "rmatch dotall (Rep greedy lo hi c) s =
     (if greedy then rev (bounded lo hi (reps dotall c s)) else bounded lo hi (reps dotall c s))"
| "rmatch dotall (Lookahead r) s = (if rmatch dotall r s = [] then [] else [s])"

text \<open>
  Every pattern of the source is a concatenation with exactly one capturing group, at
  its top level: what precedes the group, the group, what follows it. So
  \<^verbatim>\<open>match.group(1)\<close> is a string whenever there is a match.
\<close>

record pattern =
  before :: regex
  group1 :: regex
  after :: regex

text \<open>
  \<open>group_texts\<close>: with \<open>s1\<close> what is left after the part before the group, the text of
  group 1 for each way of matching the group and what follows it, in the matcher's order.
  \<open>captures\<close>: the same for each way of matching the whole pattern at the start of \<open>s\<close>;
  \<open>match_at\<close> is the first of them.
\<close>

definition group_texts :: "bool \<Rightarrow> pattern \<Rightarrow> string \<Rightarrow> string list" where
  "group_texts dotall p s1 =
     concat (map (\<lambda>s2. map (\<lambda>s3. take (length s1 - length s2) s1) (rmatch dotall (after p) s2))
                 (rmatch dotall (group1 p) s1))"

definition captures :: "bool \<Rightarrow> pattern \<Rightarrow> string \<Rightarrow> string list" where
  "captures dotall p s = concat (map (group_texts dotall p) (rmatch dotall (before p) s))"

definition match_at :: "bool \<Rightarrow> pattern \<Rightarrow> string \<Rightarrow> string option" where
  "match_at dotall p s = (case captures dotall p s of [] \<Rightarrow> None | g # gs \<Rightarrow> Some g)"

text \<open>
  \<^verbatim>\<open>re.search(pattern, text, flags)\<close> tries the start positions from left to right, the
  end of the text included, and returns the first match; the result here is the text of
  its group 1.
\<close>

fun re_search :: "bool \<Rightarrow> pattern \<Rightarrow> string \<Rightarrow> string option" where
  "re_search dotall p [] = match_at dotall p []"
| "re_search dotall p (x # xs) =
     (case match_at dotall p (x # xs) of Some g \<Rightarrow> Some g | None \<Rightarrow> re_search dotall p xs)"

text \<open>A string of literal characters, as it stands inside a pattern.\<close>

fun lits :: "string \<Rightarrow> regex" where
  "lits [] = Eps"
| "lits (c # cs) = Seq (Chr (Lit c)) (lits cs)"

section \<open>String methods and \<^verbatim>\<open>int\<close>\<close>

text \<open>\<^verbatim>\<open>str.strip()\<close> removes the leading and the trailing white space.\<close>

definition strip :: "string \<Rightarrow> string" where
  "strip s = rev (dropWhile is_space (rev (dropWhile is_space s)))"

text \<open>
  \<^verbatim>\<open>str.replace('_', ' ')\<close> and \<^verbatim>\<open>str.title()\<close>, the latter on ASCII letters, which is
  what the field names consist of: a letter that follows a letter is lowered, any other
  letter is raised.
\<close>

definition replace_underscore :: "string \<Rightarrow> string" where
  "replace_underscore s = map (\<lambda>c. if c = CHR ''_'' then CHR '' '' else c) s"

definition is_lower :: "char \<Rightarrow> bool" where
  "is_lower c = (97 \<le> (of_char c :: nat) \<and> (of_char c :: nat) \<le> 122)"

definition is_upper :: "char \<Rightarrow> bool" where
  "is_upper c = (65 \<le> (of_char c :: nat) \<and> (of_char c :: nat) \<le> 90)"

definition to_upper :: "char \<Rightarrow> char" where
  "to_upper c = (if is_lower c then char_of (of_char c - (32 :: nat)) else c)"

definition to_lower :: "char \<Rightarrow> char" where
  "to_lower c = (if is_upper c then char_of (of_char c + (32 :: nat)) else c)"

fun title_from :: "bool \<Rightarrow> string \<Rightarrow> string" where
  "title_from prev_cased [] = []"
| "title_from prev_cased (c # cs) =
     (if prev_cased then to_lower c else to_upper c) # title_from (is_lower c \<or> is_upper c) cs"

definition title :: "string \<Rightarrow> string" where
  "title s = title_from False s"

text \<open>
  \<^verbatim>\<open>int(s)\<close> on a string of decimal digits, the only strings that the numeric patterns
  capture. It raises \<^verbatim>\<open>ValueError\<close> on the empty string and on a string with another
  character (signs, underscores and surrounding white space, which \<^verbatim>\<open>int\<close> accepts, are
  not modelled: no group of the source captures them). CPython also raises \<^verbatim>\<open>ValueError\<close>
  when the string has more digits than the interpreter's limit on the conversion of
  strings to integers (\<^verbatim>\<open>sys.get_int_max_str_digits()\<close>, 4300 unless it is changed; since
  Python 3.11 and the security releases 3.7.14, 3.8.14, 3.9.14 and 3.10.7).
\<close>

datatype error = ValueError

definition max_str_digits :: nat where
  "max_str_digits = 4300"

definition digit_val :: "char \<Rightarrow> int" where
  "digit_val c = int (of_char c) - 48"

definition digits_value :: "string \<Rightarrow> int" where
  "digits_value s = foldl (\<lambda>acc c. 10 * acc + digit_val c) 0 s"

definition py_int :: "string \<Rightarrow> error + int" where
  "py_int s =
     (if s = [] \<or> \<not> list_all is_digit s then Inl ValueError
      else if max_str_digits < length s then Inl ValueError
      else Inr (digits_value s))"

section \<open>Values and dictionaries\<close>

text \<open>
  A field value is \<^verbatim>\<open>None\<close>, a string or an integer. A dictionary is the list of its
  items in insertion order; storing under a key that is present replaces the value in
  place, as a Python \<^verbatim>\<open>dict\<close> does.
\<close>

datatype pyval = PyNone | PyStr string | PyInt int

type_synonym 'v dict = "(string \<times> 'v) list"

fun dict_set :: "'v dict \<Rightarrow> string \<Rightarrow> 'v \<Rightarrow> 'v dict" where
  "dict_set [] k v = [(k, v)]"
| "dict_set ((k', v') # d) k v = (if k' = k then (k, v) # d else (k', v') # dict_set d k v)"

fun dict_get :: "'v dict \<Rightarrow> string \<Rightarrow> 'v option" where
  "dict_get [] k = None"
| "dict_get ((k', v') # d) k = (if k' = k then Some v' else dict_get d k)"

definition keys :: "'v dict \<Rightarrow> string list" where
  "keys d = map fst d"

text \<open>
  The comprehension \<^verbatim>\<open>{k: f(k) for k in ks}\<close>: the keys are visited in order, and an
  exception raised by \<^verbatim>\<open>f\<close> ends the comprehension.
\<close>

fun dict_comp_from :: "pyval dict \<Rightarrow> (string \<Rightarrow> error + pyval) \<Rightarrow> string list \<Rightarrow> error + pyval dict" where
  "dict_comp_from d f [] = Inr d"
| "dict_comp_from d f (k # ks) =
     (case f k of Inl e \<Rightarrow> Inl e | Inr v \<Rightarrow> dict_comp_from (dict_set d k v) f ks)"

definition dict_comp :: "(string \<Rightarrow> error + pyval) \<Rightarrow> string list \<Rightarrow> error + pyval dict" where
  "dict_comp f ks = dict_comp_from [] f ks"

text \<open>Sequencing of two computations that may raise.\<close>

definition on_ok :: "error + 'a \<Rightarrow> ('a \<Rightarrow> error + 'b) \<Rightarrow> error + 'b" where
  "on_ok x f = (case x of Inl e \<Rightarrow> Inl e | Inr v \<Rightarrow> f v)"

section \<open>The class \<^verbatim>\<open>FormProcessor\<close>\<close>

record FormProcessor =
  difficulty_tasks :: "string list"
  pain_symptoms :: "string list"

text \<open>\<^verbatim>\<open>__init__\<close>: the two lists of names. No method assigns to them afterwards.\<close>

definition init :: FormProcessor where
  "init = \<lparr>
     difficulty_tasks =
       [''bending_or_stooping'', ''putting_on_shoes'', ''sleeping'',
        ''standing_for_an_hour'', ''stairs'', ''walking_through_store'',
        ''driving'', ''preparing_meal'', ''yard_work'', ''picking_up_items''],
     pain_symptoms = [''pain'', ''numbness'', ''tingling'', ''burning'', ''tightness''] \<rparr>"

subsection \<open>The three finders\<close>

text \<open>
  \<^verbatim>\<open>_find_value\<close>, \<^verbatim>\<open>_find_numeric_value\<close> and \<^verbatim>\<open>_find_checkbox\<close> (an identifier cannot
  start with an underscore here). Only \<^verbatim>\<open>_find_value\<close> passes flags to \<^verbatim>\<open>re.search\<close>.
\<close>

definition find_value :: "pattern \<Rightarrow> string \<Rightarrow> bool \<Rightarrow> pyval" where
  "find_value pat text dotall =
     (case re_search dotall pat text of Some g \<Rightarrow> PyStr (strip g) | None \<Rightarrow> PyNone)"

definition find_numeric_value :: "pattern \<Rightarrow> string \<Rightarrow> error + pyval" where
  "find_numeric_value pat text =
     (case re_search False pat text of
        Some g \<Rightarrow> (case py_int g of Inl e \<Rightarrow> Inl e | Inr n \<Rightarrow> Inr (PyInt n))
      | None \<Rightarrow> Inr PyNone)"

definition find_checkbox :: "pattern \<Rightarrow> string \<Rightarrow> pyval" where
  "find_checkbox pat text =
     (case re_search False pat text of Some g \<Rightarrow> PyStr g | None \<Rightarrow> PyNone)"

subsection \<open>The patterns\<close>

text \<open>\<^verbatim>\<open>\s*\<close>, \<^verbatim>\<open>.*\<close>, \<^verbatim>\<open>.*?\<close> and \<^verbatim>\<open>\d+\<close>.\<close>

definition ws :: regex where
  "ws = Rep True 0 None Space"

definition rest_of_line :: regex where
  "rest_of_line = Rep True 0 None AnyChar"

definition lazy_any :: regex where
  "lazy_any = Rep False 0 None AnyChar"

definition digits1 :: regex where
  "digits1 = Rep True 1 None Digit"

text \<open>\<^verbatim>\<open>LABEL\s*:\s*\<close>, the start of the patterns of twelve fields.\<close>

definition label_sep :: "string \<Rightarrow> regex" where
  "label_sep l = Seq (lits l) (Seq ws (Seq (Chr (Lit CHR '':'')) ws))"

text \<open>\<^verbatim>\<open>LABEL\s*:\s*(.*)\<close>\<close>

definition line_pattern :: "string \<Rightarrow> pattern" where
  "line_pattern l = \<lparr> before = label_sep l, group1 = rest_of_line, after = Eps \<rparr>"

text \<open>\<^verbatim>\<open>LABEL\s*:\s*(YES|NO)\<close>\<close>

definition checkbox_pattern :: "string \<Rightarrow> pattern" where
  "checkbox_pattern l =
     \<lparr> before = label_sep l, group1 = Alt (lits ''YES'') (lits ''NO''), after = Eps \<rparr>"

text \<open>\<^verbatim>\<open>LABEL\s*:\s*(\d+)\<close>\<close>

definition number_pattern :: "string \<Rightarrow> pattern" where
  "number_pattern l = \<lparr> before = label_sep l, group1 = digits1, after = Eps \<rparr>"

text \<open>
  \<^verbatim>\<open>rf"{task.replace('_', ' ').title()}:\s*([0-5])"\<close>: the name is put into the pattern
  as it is; it consists of letters and spaces, which stand for themselves in a pattern.
\<close>

definition difficulty_pattern :: "string \<Rightarrow> pattern" where
  "difficulty_pattern task =
     \<lparr> before = Seq (lits (title (replace_underscore task))) (Seq (Chr (Lit CHR '':'')) ws),
       group1 = Chr (Range CHR ''0'' CHR ''5''),
       after = Eps \<rparr>"

text \<open>\<^verbatim>\<open>rf"{symptom.title()}:\s*([0-9]{{1,2}})"\<close>\<close>

definition pain_pattern :: "string \<Rightarrow> pattern" where
  "pain_pattern symptom =
     \<lparr> before = Seq (lits (title symptom)) (Seq (Chr (Lit CHR '':'')) ws),
       group1 = Rep True 1 (Some 2) (Range CHR ''0'' CHR ''9''),
       after = Eps \<rparr>"

text \<open>\<^verbatim>\<open>LABEL:(.*?)(?=\n\S)\<close>, searched with \<^verbatim>\<open>re.DOTALL\<close>.\<close>

definition paragraph_pattern :: "string \<Rightarrow> pattern" where
  "paragraph_pattern l =
     \<lparr> before = Seq (lits l) (Chr (Lit CHR '':'')),
       group1 = lazy_any,
       after = Lookahead (Seq (Chr (Lit nl)) (Chr NonSpace)) \<rparr>"

text \<open>\<^verbatim>\<open>LABEL:(.*)\<close>\<close>

definition colon_line_pattern :: "string \<Rightarrow> pattern" where
  "colon_line_pattern l =
     \<lparr> before = Seq (lits l) (Chr (Lit CHR '':'')), group1 = rest_of_line, after = Eps \<rparr>"

subsection \<open>The six groups\<close>

definition extract_patient_info :: "string \<Rightarrow> pyval dict" where
  "extract_patient_info text =
     [(''patient_name'', find_value (line_pattern ''Patient Name'') text False),
      (''dob'', find_value (line_pattern ''DOB'') text False)]"

definition extract_treatment_info :: "string \<Rightarrow> pyval dict" where
  "extract_treatment_info text =
     [(''date'', find_value (line_pattern ''Date'') text False),
      (''injection'', find_checkbox (checkbox_pattern ''INJECTION'') text),
      (''exercise_therapy'', find_checkbox (checkbox_pattern ''Exercise Therapy'') text)]"

definition extract_difficulty_ratings :: "FormProcessor \<Rightarrow> string \<Rightarrow> error + pyval dict" where
  "extract_difficulty_ratings self text =
     dict_comp (\<lambda>task. find_numeric_value (difficulty_pattern task) text) (difficulty_tasks self)"

definition extract_patient_changes :: "string \<Rightarrow> pyval dict" where
  "extract_patient_changes text =
     [(''since_last_treatment'',
         find_value (paragraph_pattern ''Patient changes since last treatment'') text True),
      (''since_start_of_treatment'',
         find_value (paragraph_pattern ''Patient changes since the start of treatment'') text True),
      (''last_3_days'',
         find_value (colon_line_pattern
           ''Describe any functional changes within the last three days (good or bad)'') text False)]"

definition extract_pain_symptoms :: "FormProcessor \<Rightarrow> string \<Rightarrow> error + pyval dict" where
  "extract_pain_symptoms self text =
     dict_comp (\<lambda>symptom. find_numeric_value (pain_pattern symptom) text) (pain_symptoms self)"

text \<open>
  The items of the dictionary display are evaluated in the order written, so the first
  \<^verbatim>\<open>int\<close> that raises ends \<^verbatim>\<open>_extract_ma_data\<close>.
\<close>

definition extract_ma_data :: "string \<Rightarrow> error + pyval dict" where
  "extract_ma_data text =
     on_ok (Inr (find_value (line_pattern ''Blood Pressure'') text False)) (\<lambda>blood_pressure.
     on_ok (find_numeric_value (number_pattern ''HR'') text) (\<lambda>hr.
     on_ok (find_numeric_value (number_pattern ''Weight'') text) (\<lambda>weight.
     on_ok (Inr (find_value (line_pattern ''Height'') text False)) (\<lambda>height.
     on_ok (find_numeric_value (number_pattern ''SpO2'') text) (\<lambda>spo2.
     on_ok (Inr (find_value (line_pattern ''Temperature'') text False)) (\<lambda>temperature.
     on_ok (find_numeric_value (number_pattern ''Blood Glucose'') text) (\<lambda>blood_glucose.
     on_ok (find_numeric_value (number_pattern ''Respirations'') text) (\<lambda>respirations.
     Inr [(''blood_pressure'', blood_pressure), (''hr'', hr), (''weight'', weight),
          (''height'', height), (''spo2'', spo2), (''temperature'', temperature),
          (''blood_glucose'', blood_glucose), (''respirations'', respirations)]))))))))"

subsection \<open>\<^verbatim>\<open>parse_ocr_output\<close>\<close>

definition parse_ocr_output :: "FormProcessor \<Rightarrow> string \<Rightarrow> error + pyval dict dict" where
  "parse_ocr_output self text =
     on_ok (Inr (extract_patient_info text)) (\<lambda>patient_details.
     on_ok (Inr (extract_treatment_info text)) (\<lambda>treatment_details.
     on_ok (extract_difficulty_ratings self text) (\<lambda>difficulty_ratings.
     on_ok (Inr (extract_patient_changes text)) (\<lambda>patient_changes.
     on_ok (extract_pain_symptoms self text) (\<lambda>pain.
     on_ok (extract_ma_data text) (\<lambda>medical_assistant_data.
     Inr [(''patient_details'', patient_details),
          (''treatment_details'', treatment_details),
          (''difficulty_ratings'', difficulty_ratings),
          (''patient_changes'', patient_changes),
          (''pain_symptoms'', pain),
          (''medical_assistant_data'', medical_assistant_data)]))))))"

text \<open>
  Reading one field of the result: \<^verbatim>\<open>data[group][name]\<close>.
\<close>

definition field :: "pyval dict dict \<Rightarrow> string \<Rightarrow> string \<Rightarrow> pyval option" where
  "field data g k = (case dict_get data g of None \<Rightarrow> None | Some d \<Rightarrow> dict_get d k)"

section \<open>Properties of the matcher\<close>

lemma reps_set:
  "set (reps d c s) = {t. \<exists>u. s = u @ t \<and> list_all (cmatch d c) u}"
proof (induction s)
  case Nil
  then show ?case by auto
next
  case (Cons x xs)
  show ?case
  proof (intro set_eqI iffI)
    fix t assume "t \<in> set (reps d c (x # xs))"
    then consider "t = x # xs" | "cmatch d c x" "t \<in> set (reps d c xs)"
      by (auto split: if_splits)
    then show "t \<in> {t. \<exists>u. x # xs = u @ t \<and> list_all (cmatch d c) u}"
    proof cases
      case 1
      then show ?thesis by (auto intro: exI[of _ "[]"])
    next
      case 2
      then obtain u where "xs = u @ t" "list_all (cmatch d c) u" using Cons.IH by auto
      then show ?thesis using 2(1) by (auto intro: exI[of _ "x # u"])
    qed
  next
    fix t assume "t \<in> {t. \<exists>u. x # xs = u @ t \<and> list_all (cmatch d c) u}"
    then obtain u where u: "x # xs = u @ t" "list_all (cmatch d c) u" by auto
    show "t \<in> set (reps d c (x # xs))"
    proof (cases u)
      case Nil
      then show ?thesis using u by auto
    next
      case (Cons y ys)
      then have "x = y" "xs = ys @ t" "cmatch d c y" "list_all (cmatch d c) ys" using u by auto
      then show ?thesis using Cons.IH by auto
    qed
  qed
qed

lemma reps_nonempty: "reps d c s \<noteq> []"
  by (cases s) auto

lemma rev_reps:
  "\<exists>ts. rev (reps d c s) = dropWhile (cmatch d c) s # ts \<and> (\<forall>t\<in>set ts. \<exists>x t'. t = x # t' \<and> cmatch d c x)"
proof (induction s)
  case Nil
  then show ?case by simp
next
  case (Cons x xs)
  show ?case
  proof (cases "cmatch d c x")
    case True
    from Cons.IH obtain ts where ts: "rev (reps d c xs) = dropWhile (cmatch d c) xs # ts"
      "\<forall>t\<in>set ts. \<exists>x t'. t = x # t' \<and> cmatch d c x" by blast
    have "rev (reps d c (x # xs)) = dropWhile (cmatch d c) (x # xs) # (ts @ [x # xs])"
      using True ts(1) by simp
    moreover have "\<forall>t\<in>set (ts @ [x # xs]). \<exists>y t'. t = y # t' \<and> cmatch d c y"
      using True ts(2) by auto
    ultimately show ?thesis by blast
  next
    case False
    then show ?thesis by simp
  qed
qed

lemma bounded_subset: "set (bounded lo hi xs) \<subseteq> set xs"
  by (auto simp: bounded_def split: option.splits dest: in_set_takeD in_set_dropD)

lemma rmatch_suffix: "t \<in> set (rmatch d r s) \<Longrightarrow> \<exists>u. s = u @ t"
proof (induction r arbitrary: s t)
  case Eps
  then show ?case by simp
next
  case (Chr c)
  then show ?case by (cases s) (auto split: if_splits)
next
  case (Seq a b)
  then obtain m where "m \<in> set (rmatch d a s)" "t \<in> set (rmatch d b m)" by auto
  then obtain u v where "s = u @ m" "m = v @ t" using Seq.IH by blast
  then show ?case by auto
next
  case (Alt a b)
  then show ?case by auto
next
  case (Rep g lo hi c)
  then have "t \<in> set (reps d c s)" using bounded_subset by (fastforce split: if_splits)
  then show ?case by (auto simp: reps_set)
next
  case (Lookahead r)
  then show ?case by (auto split: if_splits)
qed

lemma rmatch_lits: "rmatch d (lits l) s = (if take (length l) s = l then [drop (length l) s] else [])"
proof (induction l arbitrary: s)
  case Nil
  then show ?case by simp
next
  case (Cons c cs)
  then show ?case by (cases s) auto
qed




lemma cmatch_Space: "cmatch d Space = is_space"
  by (rule ext) simp


lemma captures_set:
  "set (captures d p s) =
     {g. \<exists>s1 s2 s3. s1 \<in> set (rmatch d (before p) s) \<and> s2 \<in> set (rmatch d (group1 p) s1)
          \<and> s3 \<in> set (rmatch d (after p) s2) \<and> g = take (length s1 - length s2) s1}"
  by (auto simp: captures_def group_texts_def)

lemma match_at_Some_mem: "match_at d p s = Some g \<Longrightarrow> g \<in> set (captures d p s)"
  by (auto simp: match_at_def split: list.splits)


lemma re_search_Some_iff:
  "re_search d p text = Some g \<longleftrightarrow>
     (\<exists>i\<le>length text. match_at d p (drop i text) = Some g \<and> (\<forall>j<i. match_at d p (drop j text) = None))"
proof (induction "text")
  case Nil
  then show ?case by auto
next
  case (Cons x xs)
  show ?case
  proof (cases "match_at d p (x # xs)")
    case (Some g')
    show ?thesis
    proof
      assume "re_search d p (x # xs) = Some g"
      then have "g' = g" using Some by simp
      then show "\<exists>i\<le>length (x # xs). match_at d p (drop i (x # xs)) = Some g \<and> (\<forall>j<i. match_at d p (drop j (x # xs)) = None)"
        using Some by (intro exI[of _ 0]) simp
    next
      assume "\<exists>i\<le>length (x # xs). match_at d p (drop i (x # xs)) = Some g \<and> (\<forall>j<i. match_at d p (drop j (x # xs)) = None)"
      then obtain i where i: "match_at d p (drop i (x # xs)) = Some g" "\<forall>j<i. match_at d p (drop j (x # xs)) = None"
        by blast
      have "i = 0"
      proof (rule ccontr)
        assume "i \<noteq> 0"
        then have "match_at d p (drop 0 (x # xs)) = None" using i(2) by blast
        then show False using Some by simp
      qed
      then show "re_search d p (x # xs) = Some g" using i(1) Some by simp
    qed
  next
    case None
    have "re_search d p (x # xs) = Some g \<longleftrightarrow> re_search d p xs = Some g" using None by simp
    also have "\<dots> \<longleftrightarrow> (\<exists>i\<le>length xs. match_at d p (drop i xs) = Some g \<and> (\<forall>j<i. match_at d p (drop j xs) = None))"
      by (rule Cons.IH)
    also have "\<dots> \<longleftrightarrow> (\<exists>i\<le>length (x # xs). match_at d p (drop i (x # xs)) = Some g \<and> (\<forall>j<i. match_at d p (drop j (x # xs)) = None))"
    proof
      assume "\<exists>i\<le>length xs. match_at d p (drop i xs) = Some g \<and> (\<forall>j<i. match_at d p (drop j xs) = None)"
      then obtain i where i: "i \<le> length xs" "match_at d p (drop i xs) = Some g" "\<forall>j<i. match_at d p (drop j xs) = None"
        by blast
      have "\<forall>j<Suc i. match_at d p (drop j (x # xs)) = None"
      proof (intro allI impI)
        fix j assume "j < Suc i"
        then show "match_at d p (drop j (x # xs)) = None"
          using None i(3) by (cases j) auto
      qed
      then show "\<exists>i\<le>length (x # xs). match_at d p (drop i (x # xs)) = Some g \<and> (\<forall>j<i. match_at d p (drop j (x # xs)) = None)"
        using i(1,2) by (intro exI[of _ "Suc i"]) simp
    next
      assume "\<exists>i\<le>length (x # xs). match_at d p (drop i (x # xs)) = Some g \<and> (\<forall>j<i. match_at d p (drop j (x # xs)) = None)"
      then obtain i where i: "i \<le> length (x # xs)" "match_at d p (drop i (x # xs)) = Some g"
        "\<forall>j<i. match_at d p (drop j (x # xs)) = None" by blast
      then obtain k where k: "i = Suc k" using None by (cases i) auto
      have "\<forall>j<k. match_at d p (drop j xs) = None"
      proof (intro allI impI)
        fix j assume "j < k"
        then have "match_at d p (drop (Suc j) (x # xs)) = None" using i(3) k by blast
        then show "match_at d p (drop j xs) = None" by simp
      qed
      then show "\<exists>i\<le>length xs. match_at d p (drop i xs) = Some g \<and> (\<forall>j<i. match_at d p (drop j xs) = None)"
        using i(1,2) k by (intro exI[of _ k]) simp
    qed
    finally show ?thesis .
  qed
qed

lemma re_search_None_iff:
  "re_search d p text = None \<longleftrightarrow> (\<forall>i\<le>length text. match_at d p (drop i text) = None)"
proof (induction "text")
  case Nil
  then show ?case by simp
next
  case (Cons x xs)
  show ?case
  proof (cases "match_at d p (x # xs)")
    case (Some g)
    then have "match_at d p (drop 0 (x # xs)) \<noteq> None" by simp
    then show ?thesis using Some by (metis le0 option.simps(5) re_search.simps(2) option.distinct(1))
  next
    case None
    have "(\<forall>i\<le>length (x # xs). match_at d p (drop i (x # xs)) = None) \<longleftrightarrow>
          (\<forall>i\<le>length xs. match_at d p (drop i xs) = None)"
    proof
      assume a: "\<forall>i\<le>length (x # xs). match_at d p (drop i (x # xs)) = None"
      show "\<forall>i\<le>length xs. match_at d p (drop i xs) = None"
      proof (intro allI impI)
        fix i assume "i \<le> length xs"
        then have "match_at d p (drop (Suc i) (x # xs)) = None" using a by (metis Suc_le_mono length_Cons)
        then show "match_at d p (drop i xs) = None" by simp
      qed
    next
      assume a: "\<forall>i\<le>length xs. match_at d p (drop i xs) = None"
      show "\<forall>i\<le>length (x # xs). match_at d p (drop i (x # xs)) = None"
      proof (intro allI impI)
        fix i assume "i \<le> length (x # xs)"
        then show "match_at d p (drop i (x # xs)) = None" using None a by (cases i) auto
      qed
    qed
    then show ?thesis using None Cons.IH by simp
  qed
qed

lemma not_space_colon: "\<not> is_space CHR '':''"
  by (simp add: is_space_def)

lemma ws_first:
  assumes "\<And>x t. is_space x \<Longrightarrow> f (x # t) = []"
  shows "concat (map f (rmatch d ws s)) = f (dropWhile is_space s)"
proof -
  obtain ts where ts: "rev (reps d Space s) = dropWhile (cmatch d Space) s # ts"
    "\<forall>t\<in>set ts. \<exists>x t'. t = x # t' \<and> cmatch d Space x"
    using rev_reps by blast
  have "\<forall>t\<in>set ts. f t = []" using ts(2) assms by auto
  then have "concat (map f ts) = []" by simp
  then show ?thesis using ts(1) by (simp add: ws_def bounded_def cmatch_Space)
qed

lemma rmatch_colon_ws:
  "rmatch d (Seq (Chr (Lit CHR '':'')) ws) s =
     (case s of [] \<Rightarrow> [] | c # r \<Rightarrow> if c = CHR '':'' then rmatch d ws r else [])"
  by (cases s) auto

lemma rmatch_sep:
  "rmatch d (Seq ws (Seq (Chr (Lit CHR '':'')) ws)) t =
     (case dropWhile is_space t of [] \<Rightarrow> [] | c # r \<Rightarrow> if c = CHR '':'' then rmatch d ws r else [])"
proof -
  have "rmatch d (Seq ws (Seq (Chr (Lit CHR '':'')) ws)) t =
        concat (map (rmatch d (Seq (Chr (Lit CHR '':'')) ws)) (rmatch d ws t))"
    by (rule rmatch.simps(3))
  also have "\<dots> = rmatch d (Seq (Chr (Lit CHR '':'')) ws) (dropWhile is_space t)"
    by (rule ws_first) (auto simp: rmatch_colon_ws not_space_colon)
  finally show ?thesis by (simp only: rmatch_colon_ws)
qed

lemma rmatch_label_sep:
  "rmatch d (label_sep l) s =
     (if take (length l) s = l
      then (case dropWhile is_space (drop (length l) s) of
              [] \<Rightarrow> [] | c # r \<Rightarrow> if c = CHR '':'' then rmatch d ws r else [])
      else [])"
proof -
  have "rmatch d (label_sep l) s =
        concat (map (rmatch d (Seq ws (Seq (Chr (Lit CHR '':'')) ws))) (rmatch d (lits l) s))"
    unfolding label_sep_def by (rule rmatch.simps(3))
  then show ?thesis by (simp del: rmatch.simps add: rmatch_sep rmatch_lits)
qed

lemma take_length_dropWhile: "take (length s - length (dropWhile P s)) s = takeWhile P s"
proof -
  have "length s = length (takeWhile P s) + length (dropWhile P s)"
    by (metis length_append takeWhile_dropWhile_id)
  then have "length s - length (dropWhile P s) = length (takeWhile P s)" by simp
  then show ?thesis by (metis append_eq_conv_conj takeWhile_dropWhile_id)
qed

lemma cmatch_AnyChar: "cmatch False AnyChar = (\<lambda>c. c \<noteq> nl)"
  by (rule ext) simp

lemma rmatch_rest_of_line:
  "\<exists>ts. rmatch False rest_of_line s = dropWhile (\<lambda>c. c \<noteq> nl) s # ts"
  using rev_reps [of False AnyChar s]
  by (auto simp: rest_of_line_def bounded_def cmatch_AnyChar)

lemma rmatch_ws_hd: "\<exists>ts. rmatch d ws s = dropWhile is_space s # ts"
  using rev_reps [of d Space s] by (auto simp: ws_def bounded_def cmatch_Space)

lemma group_texts_line:
  "\<exists>gs. group_texts False (line_pattern l) s1 = takeWhile (\<lambda>c. c \<noteq> nl) s1 # gs"
proof -
  obtain us where "rmatch False rest_of_line s1 = dropWhile (\<lambda>c. c \<noteq> nl) s1 # us"
    using rmatch_rest_of_line by blast
  then show ?thesis
    by (simp add: group_texts_def line_pattern_def take_length_dropWhile del: rmatch.simps(5))
qed

lemma match_at_line_after_ws:
  "(case concat (map (group_texts False (line_pattern l)) (rmatch False ws r)) of
      [] \<Rightarrow> None | g # gs \<Rightarrow> Some g) = Some (takeWhile (\<lambda>c. c \<noteq> nl) (dropWhile is_space r))"
proof -
  obtain ts where ts: "rmatch False ws r = dropWhile is_space r # ts" using rmatch_ws_hd by blast
  obtain gs where gs: "group_texts False (line_pattern l) (dropWhile is_space r) =
      takeWhile (\<lambda>c. c \<noteq> nl) (dropWhile is_space r) # gs" using group_texts_line by blast
  show ?thesis unfolding ts by (simp add: gs)
qed

lemma match_at_line_pattern:
  "match_at False (line_pattern l) s =
     (if take (length l) s = l
      then (case dropWhile is_space (drop (length l) s) of
              [] \<Rightarrow> None
            | c # r \<Rightarrow> if c = CHR '':'' then Some (takeWhile (\<lambda>c. c \<noteq> nl) (dropWhile is_space r)) else None)
      else None)"
proof -
  have B: "rmatch False (before (line_pattern l)) s =
     (if take (length l) s = l
      then (case dropWhile is_space (drop (length l) s) of
              [] \<Rightarrow> [] | c # r \<Rightarrow> if c = CHR '':'' then rmatch False ws r else [])
      else [])"
    by (simp add: line_pattern_def rmatch_label_sep del: rmatch.simps)
  show ?thesis
  proof (cases "take (length l) s = l")
    case False
    then show ?thesis unfolding match_at_def captures_def B by simp
  next
    case True
    show ?thesis
    proof (cases "dropWhile is_space (drop (length l) s)")
      case Nil
      show ?thesis unfolding match_at_def captures_def B Nil using True by simp
    next
      case (Cons c r)
      show ?thesis unfolding match_at_def captures_def B Cons using True
        by (simp add: match_at_line_after_ws)
    qed
  qed
qed

section \<open>Single-line text fields: what the pattern captures\<close>

lemma dropWhile_spaces_nonspace:
  "list_all is_space sp \<Longrightarrow> \<not> is_space c \<Longrightarrow> dropWhile is_space (sp @ c # r) = c # r"
  by (induction sp) auto

lemma dropWhile_eq_ConsD:
  "dropWhile P t = c # r \<Longrightarrow> \<exists>sp. t = sp @ c # r \<and> list_all P sp"
proof -
  assume a: "dropWhile P t = c # r"
  have "t = takeWhile P t @ c # r" using a by (metis takeWhile_dropWhile_id)
  moreover have "list_all P (takeWhile P t)" by (simp add: list_all_iff) (metis set_takeWhileD)
  ultimately show ?thesis by blast
qed

lemma match_at_line_Some:
  "list_all is_space sp \<Longrightarrow>
   match_at False (line_pattern l) (l @ sp @ CHR '':'' # rest) =
     Some (takeWhile (\<lambda>c. c \<noteq> nl) (dropWhile is_space rest))"
  by (simp add: match_at_line_pattern dropWhile_spaces_nonspace not_space_colon)

lemma match_at_line_prefix:
  assumes "match_at False (line_pattern l) s = Some g"
  shows "\<exists>t. s = l @ t"
proof (rule ccontr)
  assume n: "\<not> (\<exists>t. s = l @ t)"
  have "take (length l) s \<noteq> l"
  proof
    assume "take (length l) s = l"
    then have "s = l @ drop (length l) s" by (metis append_take_drop_id)
    then show False using n by blast
  qed
  then have "match_at False (line_pattern l) s = None"
    by (simp add: match_at_line_pattern)
  then show False using assms by simp
qed

lemma match_at_line_app:
  "match_at False (line_pattern l) (l @ t) =
     (case dropWhile is_space t of
        [] \<Rightarrow> None
      | c # r \<Rightarrow> if c = CHR '':'' then Some (takeWhile (\<lambda>c. c \<noteq> nl) (dropWhile is_space r)) else None)"
  by (simp add: match_at_line_pattern)

lemma match_at_line_SomeD:
  assumes "match_at False (line_pattern l) s = Some g"
  shows "\<exists>sp rest. s = l @ sp @ CHR '':'' # rest \<and> list_all is_space sp \<and>
           g = takeWhile (\<lambda>c. c \<noteq> nl) (dropWhile is_space rest)"
proof -
  obtain t where t: "s = l @ t" using assms match_at_line_prefix by blast
  have "match_at False (line_pattern l) (l @ t) = Some g" using assms t by simp
  then have c: "(case dropWhile is_space t of
        [] \<Rightarrow> None
      | c # r \<Rightarrow> if c = CHR '':'' then Some (takeWhile (\<lambda>c. c \<noteq> nl) (dropWhile is_space r)) else None)
      = Some g"
    by (simp only: match_at_line_app)
  show ?thesis
  proof (cases "dropWhile is_space t")
    case Nil
    have False using c unfolding Nil by simp
    then show ?thesis ..
  next
    case (Cons c' r')
    have i: "(if c' = CHR '':'' then Some (takeWhile (\<lambda>c. c \<noteq> nl) (dropWhile is_space r')) else None)
        = Some g"
      using c unfolding Cons by simp
    have c': "c' = CHR '':''"
    proof (rule ccontr)
      assume "c' \<noteq> CHR '':''"
      then show False using i by simp
    qed
    have g: "g = takeWhile (\<lambda>c. c \<noteq> nl) (dropWhile is_space r')" using i c' by simp
    obtain sp where sp: "t = sp @ c' # r'" "list_all is_space sp"
      using dropWhile_eq_ConsD [OF Cons] by blast
    have e: "s = l @ sp @ CHR '':'' # r'" unfolding t sp(1) c' ..
    show ?thesis
      by (rule exI [of _ sp], rule exI [of _ r']) (intro conjI e sp(2) g)
  qed
qed

lemma match_at_line_None_iff:
  "match_at False (line_pattern l) s = None \<longleftrightarrow>
     \<not> (\<exists>sp rest. s = l @ sp @ CHR '':'' # rest \<and> list_all is_space sp)"
proof
  assume n: "match_at False (line_pattern l) s = None"
  show "\<not> (\<exists>sp rest. s = l @ sp @ CHR '':'' # rest \<and> list_all is_space sp)"
  proof
    assume "\<exists>sp rest. s = l @ sp @ CHR '':'' # rest \<and> list_all is_space sp"
    then obtain sp rest where "s = l @ sp @ CHR '':'' # rest" "list_all is_space sp" by blast
    then show False using n match_at_line_Some by simp
  qed
next
  assume a: "\<not> (\<exists>sp rest. s = l @ sp @ CHR '':'' # rest \<and> list_all is_space sp)"
  show "match_at False (line_pattern l) s = None"
  proof (cases "match_at False (line_pattern l) s")
    case None
    then show ?thesis .
  next
    case (Some g)
    then show ?thesis using a match_at_line_SomeD by blast
  qed
qed

lemma match_at_line_iff:
  "match_at False (line_pattern l) s = Some g \<longleftrightarrow>
     (\<exists>sp rest. s = l @ sp @ CHR '':'' # rest \<and> list_all is_space sp \<and>
        g = takeWhile (\<lambda>c. c \<noteq> nl) (dropWhile is_space rest))"
proof
  assume "match_at False (line_pattern l) s = Some g"
  then show "\<exists>sp rest. s = l @ sp @ CHR '':'' # rest \<and> list_all is_space sp \<and>
        g = takeWhile (\<lambda>c. c \<noteq> nl) (dropWhile is_space rest)"
    by (rule match_at_line_SomeD)
next
  assume "\<exists>sp rest. s = l @ sp @ CHR '':'' # rest \<and> list_all is_space sp \<and>
        g = takeWhile (\<lambda>c. c \<noteq> nl) (dropWhile is_space rest)"
  then obtain sp rest where "s = l @ sp @ CHR '':'' # rest" "list_all is_space sp"
    "g = takeWhile (\<lambda>c. c \<noteq> nl) (dropWhile is_space rest)" by blast
  then show "match_at False (line_pattern l) s = Some g"
    by (simp add: match_at_line_Some)
qed

lemma re_search_by_offsets:
  assumes "\<And>s g. match_at d p s = Some g \<longleftrightarrow> M s g"
    and "\<And>s. match_at d p s = None \<longleftrightarrow> \<not> N s"
  shows "re_search d p t = Some g \<longleftrightarrow>
           (\<exists>i\<le>length t. M (drop i t) g \<and> (\<forall>j<i. \<not> N (drop j t)))"
    and "re_search d p t = None \<longleftrightarrow> (\<forall>i\<le>length t. \<not> N (drop i t))"
proof -
  show "re_search d p t = Some g \<longleftrightarrow>
           (\<exists>i\<le>length t. M (drop i t) g \<and> (\<forall>j<i. \<not> N (drop j t)))"
    unfolding re_search_Some_iff assms ..
  show "re_search d p t = None \<longleftrightarrow> (\<forall>i\<le>length t. \<not> N (drop i t))"
    unfolding re_search_None_iff assms ..
qed

lemma find_value_iff:
  "find_value p t d = PyStr v \<longleftrightarrow> (\<exists>g. re_search d p t = Some g \<and> v = strip g)"
  "find_value p t d = PyNone \<longleftrightarrow> re_search d p t = None"
  by (auto simp: find_value_def split: option.splits)

section \<open>Labelled fields: where a pattern matches and what it captures\<close>

lemma range05: "cmatch d (Range CHR ''0'' CHR ''5'') x \<longleftrightarrow> x \<in> set ''012345''"
proof -
  define n where "n = (of_char x :: nat)"
  have x: "x = char_of n" by (simp add: n_def)
  have "48 \<le> n \<and> n \<le> 53 \<longleftrightarrow> n = 48 \<or> n = 49 \<or> n = 50 \<or> n = 51 \<or> n = 52 \<or> n = 53" by auto
  moreover have "n = k \<longleftrightarrow> x = char_of k" if "k < 256" for k
  proof
    assume "n = k" then show "x = char_of k" using x by simp
  next
    assume "x = char_of k"
    then have "n = of_char (char_of k :: char)" by (simp add: n_def)
    then show "n = k" using that by simp
  qed
  ultimately have "48 \<le> n \<and> n \<le> 53 \<longleftrightarrow>
      x = char_of (48::nat) \<or> x = char_of (49::nat) \<or> x = char_of (50::nat) \<or>
      x = char_of (51::nat) \<or> x = char_of (52::nat) \<or> x = char_of (53::nat)" by simp
  moreover have "char_of (48::nat) = CHR ''0''" "char_of (49::nat) = CHR ''1''" "char_of (50::nat) = CHR ''2''"
    "char_of (51::nat) = CHR ''3''" "char_of (52::nat) = CHR ''4''" "char_of (53::nat) = CHR ''5''"
    by code_simp+
  ultimately show ?thesis by (simp add: n_def)
qed

lemma range09: "cmatch d (Range CHR ''0'' CHR ''9'') x \<longleftrightarrow> is_digit x"
  by (simp add: is_digit_def)

lemma digit_val_05: "x \<in> set ''012345'' \<Longrightarrow> 0 \<le> digit_val x \<and> digit_val x \<le> 5"
  by (auto simp: digit_val_def)

lemma is_digit_05: "x \<in> set ''012345'' \<Longrightarrow> is_digit x"
  by (auto simp: is_digit_def)

lemma is_digit_not_space: "is_digit x \<Longrightarrow> \<not> is_space x"
  by (auto simp: is_digit_def is_space_def)

lemma is_digit_bounds: "is_digit x \<Longrightarrow> 0 \<le> digit_val x \<and> digit_val x \<le> 9"
  by (auto simp: is_digit_def digit_val_def)


lemma rmatch_label_sep_app:
  "rmatch d (label_sep l) (l @ t) =
     (case dropWhile is_space t of [] \<Rightarrow> [] | c # r \<Rightarrow> if c = CHR '':'' then rmatch d ws r else [])"
  by (simp add: rmatch_label_sep)

lemma rmatch_label_colon:
  "rmatch d (Seq (lits l) (Seq (Chr (Lit CHR '':'')) ws)) s =
     (if take (length l) s = l
      then (case drop (length l) s of [] \<Rightarrow> [] | c # r \<Rightarrow> if c = CHR '':'' then rmatch d ws r else [])
      else [])"
proof -
  have "rmatch d (Seq (lits l) (Seq (Chr (Lit CHR '':'')) ws)) s =
        concat (map (rmatch d (Seq (Chr (Lit CHR '':'')) ws)) (rmatch d (lits l) s))"
    by (rule rmatch.simps(3))
  then show ?thesis by (simp del: rmatch.simps add: rmatch_colon_ws rmatch_lits)
qed

lemma rmatch_label_colon_app:
  "rmatch d (Seq (lits l) (Seq (Chr (Lit CHR '':'')) ws)) (l @ t) =
     (case t of [] \<Rightarrow> [] | c # r \<Rightarrow> if c = CHR '':'' then rmatch d ws r else [])"
  by (simp add: rmatch_label_colon del: rmatch.simps)

lemma not_take_prefix: "\<not> (\<exists>t. s = l @ t) \<Longrightarrow> take (length l) s \<noteq> l"
proof
  assume n: "\<not> (\<exists>t. s = l @ t)" and "take (length l) s = l"
  then have "s = l @ drop (length l) s" by (metis append_take_drop_id)
  then show False using n by blast
qed

lemma captures_prefix:
  assumes "captures d p s \<noteq> []"
    and "before p = label_sep l \<or> before p = Seq (lits l) (Seq (Chr (Lit CHR '':'')) ws)"
  shows "\<exists>t. s = l @ t"
proof (rule ccontr)
  assume "\<not> (\<exists>t. s = l @ t)"
  then have n: "take (length l) s \<noteq> l" by (rule not_take_prefix)
  have "rmatch d (before p) s = []"
  proof (cases "before p = label_sep l")
    case True
    show ?thesis unfolding True using n by (simp add: rmatch_label_sep)
  next
    case False
    then have b: "before p = Seq (lits l) (Seq (Chr (Lit CHR '':'')) ws)" using assms(2) by blast
    show ?thesis unfolding b using n by (simp add: rmatch_label_colon del: rmatch.simps)
  qed
  then have "captures d p s = []" by (simp add: captures_def)
  then show False using assms(1) by simp
qed

text \<open>The first text of the group at \<open>s1\<close>, if the group and what follows match there.\<close>

lemma captures_label_sep:
  assumes "before p = label_sep l"
    and "\<And>x t. is_space x \<Longrightarrow> group_texts d p (x # t) = []"
  shows "captures d p (l @ t) =
     (case dropWhile is_space t of
        [] \<Rightarrow> []
      | c # r \<Rightarrow> if c = CHR '':'' then group_texts d p (dropWhile is_space r) else [])"
proof (cases "dropWhile is_space t")
  case Nil
  show ?thesis unfolding captures_def assms(1) rmatch_label_sep_app Nil by simp
next
  case (Cons c r)
  have "concat (map (group_texts d p) (rmatch d ws r)) = group_texts d p (dropWhile is_space r)"
    by (rule ws_first) (rule assms(2))
  then show ?thesis unfolding captures_def assms(1) rmatch_label_sep_app Cons by simp
qed

lemma captures_label_colon:
  assumes "before p = Seq (lits l) (Seq (Chr (Lit CHR '':'')) ws)"
    and "\<And>x t. is_space x \<Longrightarrow> group_texts d p (x # t) = []"
  shows "captures d p (l @ t) =
     (case t of
        [] \<Rightarrow> []
      | c # r \<Rightarrow> if c = CHR '':'' then group_texts d p (dropWhile is_space r) else [])"
proof (cases t)
  case Nil
  show ?thesis unfolding captures_def assms(1) rmatch_label_colon_app Nil by simp
next
  case (Cons c r)
  have "concat (map (group_texts d p) (rmatch d ws r)) = group_texts d p (dropWhile is_space r)"
    by (rule ws_first) (rule assms(2))
  then show ?thesis unfolding captures_def assms(1) rmatch_label_colon_app Cons by simp
qed

lemma dropWhile_spaces_rest:
  assumes "list_all is_space sp" and "rest = [] \<or> \<not> is_space (hd rest)"
  shows "dropWhile is_space (sp @ rest) = rest"
proof (cases rest)
  case Nil
  then show ?thesis using assms(1) by (induction sp) auto
next
  case (Cons x xs)
  then have "\<not> is_space x" using assms(2) by simp
  then show ?thesis unfolding Cons using assms(1) by (rule dropWhile_spaces_nonspace [rotated])
qed

lemma dropWhile_split:
  "\<exists>sp rest. r = sp @ rest \<and> dropWhile P r = rest \<and> list_all P sp"
proof -
  have "r = takeWhile P r @ dropWhile P r" by simp
  moreover have "list_all P (takeWhile P r)" by (simp add: list_all_iff) (metis set_takeWhileD)
  ultimately show ?thesis by blast
qed

text \<open>
  A pattern \<^verbatim>\<open>LABEL:\s*(GROUP)\<close> whose group cannot start with white space matches at the
  start of \<open>s\<close> exactly when \<open>s\<close> is the label, a colon, white space, and a rest at which
  the group matches; the group's text is its first text there.
\<close>

lemma match_at_label_colon_iff:
  assumes b: "before p = Seq (lits l) (Seq (Chr (Lit CHR '':'')) ws)"
    and rej: "\<And>x t. is_space x \<Longrightarrow> group_texts d p (x # t) = []"
  shows "match_at d p s = Some g \<longleftrightarrow>
     (\<exists>sp rest gs. s = l @ CHR '':'' # sp @ rest \<and> list_all is_space sp \<and>
        group_texts d p rest = g # gs)"
proof
  assume m: "match_at d p s = Some g"
  then have ne: "captures d p s \<noteq> []" by (auto simp: match_at_def)
  then obtain t where t: "s = l @ t" using captures_prefix b by blast
  have ne': "captures d p (l @ t) \<noteq> []" using ne unfolding t .
  show "\<exists>sp rest gs. s = l @ CHR '':'' # sp @ rest \<and> list_all is_space sp \<and>
        group_texts d p rest = g # gs"
  proof (cases t)
    case Nil
    have "captures d p (l @ []) = []" using captures_label_colon [OF b rej, of "[]"] by simp
    then have False using ne' unfolding Nil by simp
    then show ?thesis ..
  next
    case (Cons c' r)
    have cap0: "captures d p (l @ c' # r) =
        (if c' = CHR '':'' then group_texts d p (dropWhile is_space r) else [])"
      using captures_label_colon [OF b rej, of "c' # r"] by simp
    have c': "c' = CHR '':''"
    proof (rule ccontr)
      assume "c' \<noteq> CHR '':''"
      then have "captures d p (l @ c' # r) = []" using cap0 by simp
      then show False using ne' unfolding Cons by simp
    qed
    obtain sp rest where sp: "r = sp @ rest" "dropWhile is_space r = rest" "list_all is_space sp"
      using dropWhile_split by blast
    have cap: "captures d p (l @ c' # r) = group_texts d p rest" using cap0 c' sp(2) by simp
    have "match_at d p (l @ c' # r) = Some g" using m unfolding t Cons .
    then obtain gs where gs: "group_texts d p rest = g # gs"
      unfolding match_at_def cap by (cases "group_texts d p rest") auto
    have e: "s = l @ CHR '':'' # sp @ rest" unfolding t Cons c' sp(1) ..
    show ?thesis
      by (rule exI [of _ sp], rule exI [of _ rest], rule exI [of _ gs]) (intro conjI e sp(3) gs)
  qed
next
  assume "\<exists>sp rest gs. s = l @ CHR '':'' # sp @ rest \<and> list_all is_space sp \<and>
        group_texts d p rest = g # gs"
  then obtain sp rest gs where a: "s = l @ CHR '':'' # sp @ rest" "list_all is_space sp"
    "group_texts d p rest = g # gs" by blast
  have r: "rest = [] \<or> \<not> is_space (hd rest)"
  proof (cases rest)
    case Nil
    then show ?thesis by simp
  next
    case (Cons x xs)
    have "\<not> is_space x"
    proof
      assume "is_space x"
      then have "group_texts d p (x # xs) = []" by (rule rej)
      then show False using a(3) Cons by simp
    qed
    then show ?thesis using Cons by simp
  qed
  have dw: "dropWhile is_space (sp @ rest) = rest" using a(2) r by (rule dropWhile_spaces_rest)
  have "captures d p (l @ CHR '':'' # sp @ rest) = group_texts d p (dropWhile is_space (sp @ rest))"
    using captures_label_colon [OF b rej, of "CHR '':'' # sp @ rest"] by simp
  then have "captures d p s = g # gs" unfolding a(1) dw a(3) .
  then show "match_at d p s = Some g" by (simp add: match_at_def)
qed


lemma match_at_label_sep_iff:
  assumes b: "before p = label_sep l"
    and rej: "\<And>x t. is_space x \<Longrightarrow> group_texts d p (x # t) = []"
  shows "match_at d p s = Some g \<longleftrightarrow>
     (\<exists>sp1 sp2 rest gs. s = l @ sp1 @ CHR '':'' # sp2 @ rest \<and> list_all is_space sp1 \<and>
        list_all is_space sp2 \<and> group_texts d p rest = g # gs)"
proof
  assume m: "match_at d p s = Some g"
  then have ne: "captures d p s \<noteq> []" by (auto simp: match_at_def)
  then obtain t where t: "s = l @ t" using captures_prefix b by blast
  have ne': "captures d p (l @ t) \<noteq> []" using ne unfolding t .
  obtain sp1 t' where sp1: "t = sp1 @ t'" "dropWhile is_space t = t'" "list_all is_space sp1"
    using dropWhile_split by blast
  have cap0: "captures d p (l @ t) =
     (case t' of [] \<Rightarrow> [] | c # r \<Rightarrow> if c = CHR '':'' then group_texts d p (dropWhile is_space r) else [])"
    using captures_label_sep [OF b rej, of t] unfolding sp1(2) .
  show "\<exists>sp1 sp2 rest gs. s = l @ sp1 @ CHR '':'' # sp2 @ rest \<and> list_all is_space sp1 \<and>
        list_all is_space sp2 \<and> group_texts d p rest = g # gs"
  proof (cases t')
    case Nil
    have "captures d p (l @ t) = []" using cap0 unfolding Nil by simp
    then have False using ne' by simp
    then show ?thesis ..
  next
    case (Cons c' r)
    have cap1: "captures d p (l @ t) =
        (if c' = CHR '':'' then group_texts d p (dropWhile is_space r) else [])"
      using cap0 unfolding Cons by simp
    have c': "c' = CHR '':''"
    proof (rule ccontr)
      assume "c' \<noteq> CHR '':''"
      then have "captures d p (l @ t) = []" using cap1 by simp
      then show False using ne' by simp
    qed
    obtain sp2 rest where sp2: "r = sp2 @ rest" "dropWhile is_space r = rest" "list_all is_space sp2"
      using dropWhile_split by blast
    have cap: "captures d p (l @ t) = group_texts d p rest" using cap1 c' sp2(2) by simp
    have "match_at d p (l @ t) = Some g" using m unfolding t .
    then obtain gs where gs: "group_texts d p rest = g # gs"
      unfolding match_at_def cap by (cases "group_texts d p rest") auto
    have e: "s = l @ sp1 @ CHR '':'' # sp2 @ rest" unfolding t sp1(1) Cons c' sp2(1) ..
    show ?thesis
      by (rule exI [of _ sp1], rule exI [of _ sp2], rule exI [of _ rest], rule exI [of _ gs])
         (intro conjI e sp1(3) sp2(3) gs)
  qed
next
  assume "\<exists>sp1 sp2 rest gs. s = l @ sp1 @ CHR '':'' # sp2 @ rest \<and> list_all is_space sp1 \<and>
        list_all is_space sp2 \<and> group_texts d p rest = g # gs"
  then obtain sp1 sp2 rest gs where a: "s = l @ sp1 @ CHR '':'' # sp2 @ rest"
    "list_all is_space sp1" "list_all is_space sp2" "group_texts d p rest = g # gs" by blast
  have r: "rest = [] \<or> \<not> is_space (hd rest)"
  proof (cases rest)
    case Nil
    then show ?thesis by simp
  next
    case (Cons x xs)
    have "\<not> is_space x"
    proof
      assume "is_space x"
      then have "group_texts d p (x # xs) = []" by (rule rej)
      then show False using a(4) Cons by simp
    qed
    then show ?thesis using Cons by simp
  qed
  have dw2: "dropWhile is_space (sp2 @ rest) = rest" using a(3) r by (rule dropWhile_spaces_rest)
  have dw1: "dropWhile is_space (sp1 @ CHR '':'' # sp2 @ rest) = CHR '':'' # sp2 @ rest"
    using a(2) not_space_colon by (rule dropWhile_spaces_nonspace)
  have "captures d p (l @ sp1 @ CHR '':'' # sp2 @ rest) = group_texts d p (dropWhile is_space (sp2 @ rest))"
    using captures_label_sep [OF b rej, of "sp1 @ CHR '':'' # sp2 @ rest"] unfolding dw1 by simp
  then have "captures d p s = g # gs" unfolding a(1) dw2 a(4) .
  then show "match_at d p s = Some g" by (simp add: match_at_def)
qed

lemma take_length_drop: "take (length s - length (drop n s)) s = take n s"
  by (cases "n \<le> length s") auto

lemma group_texts_difficulty:
  "group_texts d (difficulty_pattern task) s1 =
     (case s1 of [] \<Rightarrow> [] | x # xs \<Rightarrow> if x \<in> set ''012345'' then [[x]] else [])"
proof (cases s1)
  case Nil
  then show ?thesis by (simp add: group_texts_def difficulty_pattern_def)
next
  case (Cons x xs)
  have "cmatch d (Range CHR ''0'' CHR ''5'') x \<longleftrightarrow> x \<in> set ''012345''" by (rule range05)
  then show ?thesis unfolding Cons
    by (simp add: group_texts_def difficulty_pattern_def del: cmatch.simps)
qed

lemma reps_hd: "\<exists>ts. reps d c s = s # ts"
  by (cases s) auto

lemma group_texts_pain:
  "group_texts d (pain_pattern symptom) s1 =
     (case s1 of
        [] \<Rightarrow> []
      | x # xs \<Rightarrow>
          if \<not> is_digit x then []
          else (case xs of
                  [] \<Rightarrow> [[x]]
                | y # ys \<Rightarrow> if is_digit y then [[x, y], [x]] else [[x]]))"
proof (cases s1)
  case Nil
  then show ?thesis by (simp add: group_texts_def pain_pattern_def bounded_def)
next
  case s1: (Cons x xs)
  show ?thesis
  proof (cases xs)
    case Nil
    show ?thesis unfolding s1 Nil
      by (simp add: group_texts_def pain_pattern_def bounded_def range09 del: cmatch.simps)
  next
    case (Cons y ys)
    obtain ts where ts: "reps d (Range CHR ''0'' CHR ''9'') ys = ys # ts" using reps_hd by blast
    show ?thesis unfolding s1 Cons
      by (simp add: group_texts_def pain_pattern_def bounded_def range09 ts del: cmatch.simps)
  qed
qed

lemma cmatch_Digit: "cmatch d Digit = is_digit"
  by (rule ext) simp

lemma group_texts_number_Nil: "group_texts d (number_pattern l) [] = []"
  by (simp add: group_texts_def number_pattern_def digits1_def bounded_def)

lemma group_texts_number_not: "\<not> is_digit x \<Longrightarrow> group_texts d (number_pattern l) (x # xs) = []"
  by (simp add: group_texts_def number_pattern_def digits1_def bounded_def)

lemma group_texts_number_digit:
  assumes "is_digit x"
  shows "\<exists>gs. group_texts d (number_pattern l) (x # xs) = (x # takeWhile is_digit xs) # gs"
proof -
  obtain ts where ts: "rev (reps d Digit xs) = dropWhile is_digit xs # ts"
    using rev_reps [of d Digit xs] unfolding cmatch_Digit by blast
  have "take (Suc (length xs) - length (dropWhile is_digit xs)) (x # xs) = x # takeWhile is_digit xs"
  proof -
    have l: "length xs = length (takeWhile is_digit xs) + length (dropWhile is_digit xs)"
      by (metis length_append takeWhile_dropWhile_id)
    have "Suc (length xs) - length (dropWhile is_digit xs) = Suc (length (takeWhile is_digit xs))"
      using l by simp
    moreover have "take (length (takeWhile is_digit xs)) xs = takeWhile is_digit xs"
      by (metis append_eq_conv_conj takeWhile_dropWhile_id)
    ultimately show ?thesis by simp
  qed
  then show ?thesis using assms ts
    by (simp add: group_texts_def number_pattern_def digits1_def bounded_def)
qed

lemma group_texts_checkbox:
  "group_texts d (checkbox_pattern l) s1 =
     (if take 3 s1 = ''YES'' then [''YES''] else []) @ (if take 2 s1 = ''NO'' then [''NO''] else [])"
proof -
  have l3: "length ''YES'' = 3" and l2: "length ''NO'' = 2" by simp_all
  have y: "rmatch d (lits ''YES'') s1 = (if take 3 s1 = ''YES'' then [drop 3 s1] else [])"
    using rmatch_lits [of d "''YES''" s1] unfolding l3 .
  have n: "rmatch d (lits ''NO'') s1 = (if take 2 s1 = ''NO'' then [drop 2 s1] else [])"
    using rmatch_lits [of d "''NO''" s1] unfolding l2 .
  have "rmatch d (Alt (lits ''YES'') (lits ''NO'')) s1 =
      (if take 3 s1 = ''YES'' then [drop 3 s1] else []) @ (if take 2 s1 = ''NO'' then [drop 2 s1] else [])"
    unfolding rmatch.simps(4) y n ..
  then have "group_texts d (checkbox_pattern l) s1 =
      (if take 3 s1 = ''YES'' then [take (length s1 - length (drop 3 s1)) s1] else []) @
      (if take 2 s1 = ''NO'' then [take (length s1 - length (drop 2 s1)) s1] else [])"
    by (simp add: group_texts_def checkbox_pattern_def del: rmatch.simps(4) lits.simps length_drop)
  then show ?thesis unfolding take_length_drop by auto
qed

lemma dict_set_fresh: "k \<notin> set (keys d) \<Longrightarrow> dict_set d k v = d @ [(k, v)]"
  by (induction d) (auto simp: keys_def)

lemma dict_comp_from_Inr:
  "distinct (keys d0 @ ks) \<Longrightarrow> dict_comp_from d0 f ks = Inr d' \<Longrightarrow>
     d' = d0 @ map (\<lambda>k. (k, projr (f k))) ks \<and> (\<forall>k\<in>set ks. f k = Inr (projr (f k)))"
proof (induction ks arbitrary: d0)
  case Nil
  then show ?case by simp
next
  case (Cons k ks)
  from Cons.prems(2) obtain v where v: "f k = Inr v"
    and r: "dict_comp_from (dict_set d0 k v) f ks = Inr d'"
    by (cases "f k") auto
  have fresh: "k \<notin> set (keys d0)" using Cons.prems(1) by auto
  have ds: "dict_set d0 k v = d0 @ [(k, v)]" using fresh by (rule dict_set_fresh)
  have "distinct (keys (d0 @ [(k, v)]) @ ks)" using Cons.prems(1) by (auto simp: keys_def)
  from Cons.IH [OF this r [unfolded ds]]
  have "d' = (d0 @ [(k, v)]) @ map (\<lambda>k. (k, projr (f k))) ks"
    and "\<forall>k\<in>set ks. f k = Inr (projr (f k))" by blast+
  then show ?case using v by simp
qed

lemma dict_comp_Inr:
  assumes "distinct ks" and "dict_comp f ks = Inr d"
  shows "d = map (\<lambda>k. (k, projr (f k))) ks" and "\<And>k. k \<in> set ks \<Longrightarrow> f k = Inr (projr (f k))"
  using dict_comp_from_Inr [of "[]" ks f d] assms by (auto simp: dict_comp_def keys_def)

lemma dict_comp_from_total:
  "(\<And>k. \<exists>v. f k = Inr v) \<Longrightarrow> \<exists>d. dict_comp_from d0 f ks = Inr d"
proof (induction ks arbitrary: d0)
  case Nil
  then show ?case by simp
next
  case (Cons k ks)
  obtain v where v: "f k = Inr v" using Cons.prems by blast
  show ?case using Cons.IH [OF Cons.prems, of "dict_set d0 k v"] v by simp
qed

lemma dict_comp_total: "(\<And>k. \<exists>v. f k = Inr v) \<Longrightarrow> \<exists>d. dict_comp f ks = Inr d"
  unfolding dict_comp_def by (rule dict_comp_from_total)

lemma dict_comp_from_const:
  "(\<And>k. f k = Inr (g k)) \<Longrightarrow> dict_comp_from d0 f ks = dict_comp_from d0 (\<lambda>k. Inr (g k)) ks"
  by (induction ks arbitrary: d0) auto

lemma dict_get_map:
  "dict_get (map (\<lambda>k. (k, g k)) ks) k = (if k \<in> set ks then Some (g k) else None)"
  by (induction ks) auto

lemma keys_map: "keys (map (\<lambda>k. (k, g k)) ks) = ks"
  by (simp add: keys_def comp_def)

lemma on_ok_Inr: "on_ok (Inr v) f = f v"
  by (simp add: on_ok_def)

lemma on_ok_Inl: "on_ok (Inl e) f = Inl e"
  by (simp add: on_ok_def)

lemma on_ok_eq_Inr: "on_ok x f = Inr r \<longleftrightarrow> (\<exists>v. x = Inr v \<and> f v = Inr r)"
  by (cases x) (auto simp: on_ok_def)






lemma not_space_05: "x \<in> set ''012345'' \<Longrightarrow> \<not> is_space x"
  by (blast dest: is_digit_05 is_digit_not_space)

lemma rej_difficulty: "is_space x \<Longrightarrow> group_texts d (difficulty_pattern task) (x # t) = []"
proof -
  assume "is_space x"
  then have "x \<notin> set ''012345''" using not_space_05 by blast
  then show ?thesis unfolding group_texts_difficulty by (simp del: set_simps)
qed

lemma rej_pain: "is_space x \<Longrightarrow> group_texts d (pain_pattern symptom) (x # t) = []"
  using is_digit_not_space [of x] unfolding group_texts_pain by auto

lemma rej_number: "is_space x \<Longrightarrow> group_texts d (number_pattern l) (x # t) = []"
  using is_digit_not_space [of x] group_texts_number_not [of x d l t] by blast

lemma rej_checkbox: "is_space x \<Longrightarrow> group_texts d (checkbox_pattern l) (x # t) = []"
proof -
  assume sp: "is_space x"
  have "\<not> is_space CHR ''Y''" "\<not> is_space CHR ''N''" by (simp_all add: is_space_def)
  then have "x \<noteq> CHR ''Y''" "x \<noteq> CHR ''N''" using sp by auto
  then show ?thesis unfolding group_texts_checkbox by simp
qed

lemma match_at_difficulty_iff:
  "match_at d (difficulty_pattern task) s = Some g \<longleftrightarrow>
     (\<exists>sp c rest. s = title (replace_underscore task) @ CHR '':'' # sp @ c # rest \<and>
        list_all is_space sp \<and> c \<in> set ''012345'' \<and> g = [c])"
  (is "?L \<longleftrightarrow> ?R")
proof -
  have b: "before (difficulty_pattern task) =
      Seq (lits (title (replace_underscore task))) (Seq (Chr (Lit CHR '':'')) ws)"
    by (simp add: difficulty_pattern_def)
  note m = match_at_label_colon_iff [OF b rej_difficulty, of d s g]
  show ?thesis
  proof
    assume ?L
    then obtain sp rest gs where a: "s = title (replace_underscore task) @ CHR '':'' # sp @ rest"
      "list_all is_space sp" "group_texts d (difficulty_pattern task) rest = g # gs"
      using m by blast
    show ?R
    proof (cases rest)
      case Nil
      then have False using a(3) unfolding group_texts_difficulty by simp
      then show ?thesis ..
    next
      case (Cons c r)
      have c: "c \<in> set ''012345''"
      proof (rule ccontr)
        assume "c \<notin> set ''012345''"
        then have "group_texts d (difficulty_pattern task) (c # r) = []"
          unfolding group_texts_difficulty by (simp del: set_simps)
        then show False using a(3) unfolding Cons by simp
      qed
      then have "group_texts d (difficulty_pattern task) (c # r) = [[c]]"
        unfolding group_texts_difficulty by (simp del: set_simps)
      then have g: "g = [c]" using a(3) unfolding Cons by simp
      have e: "s = title (replace_underscore task) @ CHR '':'' # sp @ c # r" using a(1) unfolding Cons .
      show ?thesis
        by (rule exI [of _ sp], rule exI [of _ c], rule exI [of _ r]) (intro conjI e a(2) c g)
    qed
  next
    assume ?R
    then obtain sp c rest where a: "s = title (replace_underscore task) @ CHR '':'' # sp @ c # rest"
      "list_all is_space sp" "c \<in> set ''012345''" "g = [c]" by blast
    have "group_texts d (difficulty_pattern task) (c # rest) = g # []"
      using a(3) unfolding group_texts_difficulty a(4) by (simp del: set_simps)
    then have "\<exists>sp rest' gs. s = title (replace_underscore task) @ CHR '':'' # sp @ rest' \<and>
        list_all is_space sp \<and> group_texts d (difficulty_pattern task) rest' = g # gs"
      using a(1,2) by blast
    then show ?L using m by blast
  qed
qed

lemma match_at_pain_iff:
  "match_at d (pain_pattern symptom) s = Some g \<longleftrightarrow>
     (\<exists>sp x rest. s = title symptom @ CHR '':'' # sp @ x # rest \<and>
        list_all is_space sp \<and> is_digit x \<and> g = x # take 1 (takeWhile is_digit rest))"
  (is "?L \<longleftrightarrow> ?R")
proof -
  have b: "before (pain_pattern symptom) = Seq (lits (title symptom)) (Seq (Chr (Lit CHR '':'')) ws)"
    by (simp add: pain_pattern_def)
  note m = match_at_label_colon_iff [OF b rej_pain, of d s g]
  have gt: "group_texts d (pain_pattern symptom) (x # r) =
      (if is_digit x then (x # take 1 (takeWhile is_digit r)) #
          (if r \<noteq> [] \<and> is_digit (hd r) then [[x]] else []) else [])" for x r
    unfolding group_texts_pain by (cases r) auto
  show ?thesis
  proof
    assume ?L
    then obtain sp rest gs where a: "s = title symptom @ CHR '':'' # sp @ rest"
      "list_all is_space sp" "group_texts d (pain_pattern symptom) rest = g # gs"
      using m by blast
    show ?R
    proof (cases rest)
      case Nil
      then have False using a(3) unfolding group_texts_pain by simp
      then show ?thesis ..
    next
      case (Cons x r)
      have x: "is_digit x"
      proof (rule ccontr)
        assume "\<not> is_digit x"
        then have "group_texts d (pain_pattern symptom) (x # r) = []" unfolding gt by simp
        then show False using a(3) unfolding Cons by simp
      qed
      have g: "g = x # take 1 (takeWhile is_digit r)" using a(3) x unfolding Cons gt by simp
      have e: "s = title symptom @ CHR '':'' # sp @ x # r" using a(1) unfolding Cons .
      show ?thesis
        by (rule exI [of _ sp], rule exI [of _ x], rule exI [of _ r]) (intro conjI e a(2) x g)
    qed
  next
    assume ?R
    then obtain sp x rest where a: "s = title symptom @ CHR '':'' # sp @ x # rest"
      "list_all is_space sp" "is_digit x" "g = x # take 1 (takeWhile is_digit rest)" by blast
    have "\<exists>gs. group_texts d (pain_pattern symptom) (x # rest) = g # gs"
      using a(3) unfolding gt a(4) by simp
    then have "\<exists>sp rest' gs. s = title symptom @ CHR '':'' # sp @ rest' \<and>
        list_all is_space sp \<and> group_texts d (pain_pattern symptom) rest' = g # gs"
      using a(1,2) by blast
    then show ?L using m by blast
  qed
qed

lemma match_at_number_iff:
  "match_at d (number_pattern l) s = Some g \<longleftrightarrow>
     (\<exists>sp1 sp2 x rest. s = l @ sp1 @ CHR '':'' # sp2 @ x # rest \<and>
        list_all is_space sp1 \<and> list_all is_space sp2 \<and> is_digit x \<and> g = x # takeWhile is_digit rest)"
  (is "?L \<longleftrightarrow> ?R")
proof -
  have b: "before (number_pattern l) = label_sep l" by (simp add: number_pattern_def)
  note m = match_at_label_sep_iff [OF b rej_number, of d s g]
  show ?thesis
  proof
    assume ?L
    then obtain sp1 sp2 rest gs where a: "s = l @ sp1 @ CHR '':'' # sp2 @ rest"
      "list_all is_space sp1" "list_all is_space sp2" "group_texts d (number_pattern l) rest = g # gs"
      using m by blast
    show ?R
    proof (cases rest)
      case Nil
      then have False using a(4) group_texts_number_Nil [of d l] by simp
      then show ?thesis ..
    next
      case (Cons x r)
      have x: "is_digit x"
      proof (rule ccontr)
        assume "\<not> is_digit x"
        then have "group_texts d (number_pattern l) (x # r) = []" by (rule group_texts_number_not)
        then show False using a(4) unfolding Cons by simp
      qed
      obtain gs' where "group_texts d (number_pattern l) (x # r) = (x # takeWhile is_digit r) # gs'"
        using group_texts_number_digit [OF x] by blast
      then have g: "g = x # takeWhile is_digit r" using a(4) unfolding Cons by simp
      have e: "s = l @ sp1 @ CHR '':'' # sp2 @ x # r" using a(1) unfolding Cons .
      show ?thesis
        by (rule exI [of _ sp1], rule exI [of _ sp2], rule exI [of _ x], rule exI [of _ r])
           (intro conjI e a(2) a(3) x g)
    qed
  next
    assume ?R
    then obtain sp1 sp2 x rest where a: "s = l @ sp1 @ CHR '':'' # sp2 @ x # rest"
      "list_all is_space sp1" "list_all is_space sp2" "is_digit x" "g = x # takeWhile is_digit rest"
      by blast
    have "\<exists>gs. group_texts d (number_pattern l) (x # rest) = g # gs"
      unfolding a(5) using a(4) by (rule group_texts_number_digit)
    then have "\<exists>sp1 sp2 rest' gs. s = l @ sp1 @ CHR '':'' # sp2 @ rest' \<and>
        list_all is_space sp1 \<and> list_all is_space sp2 \<and> group_texts d (number_pattern l) rest' = g # gs"
      using a(1,2,3) by blast
    then show ?L using m by blast
  qed
qed

lemma match_at_checkbox_iff:
  "match_at d (checkbox_pattern l) s = Some g \<longleftrightarrow>
     (\<exists>sp1 sp2 rest. s = l @ sp1 @ CHR '':'' # sp2 @ g @ rest \<and>
        list_all is_space sp1 \<and> list_all is_space sp2 \<and> (g = ''YES'' \<or> g = ''NO''))"
  (is "?L \<longleftrightarrow> ?R")
proof -
  have b: "before (checkbox_pattern l) = label_sep l" by (simp add: checkbox_pattern_def)
  note m = match_at_label_sep_iff [OF b rej_checkbox, of d s g]
  show ?thesis
  proof
    assume ?L
    then obtain sp1 sp2 rest gs where a: "s = l @ sp1 @ CHR '':'' # sp2 @ rest"
      "list_all is_space sp1" "list_all is_space sp2" "group_texts d (checkbox_pattern l) rest = g # gs"
      using m by blast
    have "(take 3 rest = ''YES'' \<and> g = ''YES'') \<or> (take 2 rest = ''NO'' \<and> g = ''NO'')"
      using a(4) unfolding group_texts_checkbox by (auto split: if_splits)
    then obtain r where r: "rest = g @ r" "g = ''YES'' \<or> g = ''NO''"
    proof (elim disjE conjE)
      assume t: "take 3 rest = ''YES''" and g: "g = ''YES''"
      have "rest = take 3 rest @ drop 3 rest" by simp
      then have "rest = g @ drop 3 rest" unfolding t g .
      then show ?thesis using g that by blast
    next
      assume t: "take 2 rest = ''NO''" and g: "g = ''NO''"
      have "rest = take 2 rest @ drop 2 rest" by simp
      then have "rest = g @ drop 2 rest" unfolding t g .
      then show ?thesis using g that by blast
    qed
    have e: "s = l @ sp1 @ CHR '':'' # sp2 @ g @ r" using a(1) unfolding r(1) .
    show ?R
      by (rule exI [of _ sp1], rule exI [of _ sp2], rule exI [of _ r]) (intro conjI e a(2) a(3) r(2))
  next
    assume ?R
    then obtain sp1 sp2 rest where a: "s = l @ sp1 @ CHR '':'' # sp2 @ g @ rest"
      "list_all is_space sp1" "list_all is_space sp2" "g = ''YES'' \<or> g = ''NO''" by blast
    have "\<exists>gs. group_texts d (checkbox_pattern l) (g @ rest) = g # gs"
      using a(4) unfolding group_texts_checkbox by auto
    then have "\<exists>sp1 sp2 rest' gs. s = l @ sp1 @ CHR '':'' # sp2 @ rest' \<and>
        list_all is_space sp1 \<and> list_all is_space sp2 \<and> group_texts d (checkbox_pattern l) rest' = g # gs"
      using a(1,2,3) by blast
    then show ?L using m by blast
  qed
qed


lemma match_at_None_from_Some:
  assumes "\<And>g. match_at d p s = Some g \<longleftrightarrow> M g"
  shows "match_at d p s = None \<longleftrightarrow> \<not> (\<exists>g. M g)"
  unfolding assms [symmetric] by auto

lemma find_numeric_value_iff:
  assumes M: "\<And>s g. match_at False p s = Some g \<longleftrightarrow> M s g"
    and ok: "\<And>s g. M s g \<Longrightarrow> py_int g = Inr (digits_value g)"
  shows "find_numeric_value p t = Inr (PyInt v) \<longleftrightarrow>
           (\<exists>i g. i \<le> length t \<and> M (drop i t) g \<and> (\<forall>j<i. \<not> (\<exists>g'. M (drop j t) g')) \<and> v = digits_value g)"
    and "find_numeric_value p t = Inr PyNone \<longleftrightarrow> (\<forall>i\<le>length t. \<not> (\<exists>g. M (drop i t) g))"
    and "find_numeric_value p t \<noteq> Inl e"
proof -
  have n: "match_at False p s = None \<longleftrightarrow> \<not> (\<exists>g. M s g)" for s
    using M by (rule match_at_None_from_Some)
  have s1: "re_search False p t = Some g \<longleftrightarrow>
      (\<exists>i\<le>length t. M (drop i t) g \<and> (\<forall>j<i. \<not> (\<exists>g'. M (drop j t) g')))" for g
    by (rule re_search_by_offsets(1) [OF M n])
  have s2: "re_search False p t = None \<longleftrightarrow> (\<forall>i\<le>length t. \<not> (\<exists>g. M (drop i t) g))"
    by (rule re_search_by_offsets(2) [OF M n])
  show "find_numeric_value p t = Inr (PyInt v) \<longleftrightarrow>
           (\<exists>i g. i \<le> length t \<and> M (drop i t) g \<and> (\<forall>j<i. \<not> (\<exists>g'. M (drop j t) g')) \<and> v = digits_value g)"
  proof (cases "re_search False p t")
    case None
    then have "find_numeric_value p t = Inr PyNone" by (simp add: find_numeric_value_def)
    moreover have "\<not> (\<exists>i g. i \<le> length t \<and> M (drop i t) g \<and> (\<forall>j<i. \<not> (\<exists>g'. M (drop j t) g')) \<and> v = digits_value g)"
      using None s2 by blast
    ultimately show ?thesis by simp
  next
    case (Some g0)
    then obtain i where i: "i \<le> length t" "M (drop i t) g0" "\<forall>j<i. \<not> (\<exists>g'. M (drop j t) g')"
      using s1 by blast
    have f: "find_numeric_value p t = Inr (PyInt (digits_value g0))"
      using Some ok [OF i(2)] by (simp add: find_numeric_value_def)
    show ?thesis
    proof
      assume "find_numeric_value p t = Inr (PyInt v)"
      then have "v = digits_value g0" using f by simp
      then show "\<exists>i g. i \<le> length t \<and> M (drop i t) g \<and> (\<forall>j<i. \<not> (\<exists>g'. M (drop j t) g')) \<and> v = digits_value g"
        using i by blast
    next
      assume "\<exists>i g. i \<le> length t \<and> M (drop i t) g \<and> (\<forall>j<i. \<not> (\<exists>g'. M (drop j t) g')) \<and> v = digits_value g"
      then obtain i' g where a: "i' \<le> length t" "M (drop i' t) g" "\<forall>j<i'. \<not> (\<exists>g'. M (drop j t) g')"
        "v = digits_value g" by blast
      then have "re_search False p t = Some g" using s1 by blast
      then have "g = g0" using Some by simp
      then show "find_numeric_value p t = Inr (PyInt v)" using f a(4) by simp
    qed
  qed
  show "find_numeric_value p t = Inr PyNone \<longleftrightarrow> (\<forall>i\<le>length t. \<not> (\<exists>g. M (drop i t) g))"
  proof (cases "re_search False p t")
    case None
    then have "find_numeric_value p t = Inr PyNone" by (simp add: find_numeric_value_def)
    then show ?thesis using None s2 by simp
  next
    case (Some g0)
    then obtain i where i: "i \<le> length t" "M (drop i t) g0" using s1 by blast
    have f: "find_numeric_value p t = Inr (PyInt (digits_value g0))"
      using Some ok [OF i(2)] by (simp add: find_numeric_value_def)
    have "\<not> (\<forall>i\<le>length t. \<not> (\<exists>g. M (drop i t) g))" using i by blast
    then show ?thesis using f by simp
  qed
  show "find_numeric_value p t \<noteq> Inl e"
  proof (cases "re_search False p t")
    case None
    then show ?thesis by (simp add: find_numeric_value_def)
  next
    case (Some g0)
    then obtain i where i: "i \<le> length t" "M (drop i t) g0" using s1 by blast
    show ?thesis using Some ok [OF i(2)] by (simp add: find_numeric_value_def)
  qed
qed

lemma py_int_1: "is_digit c \<Longrightarrow> py_int [c] = Inr (digits_value [c])"
  by (simp add: py_int_def max_str_digits_def)

lemma py_int_le2:
  "is_digit x \<Longrightarrow> py_int (x # take 1 (takeWhile is_digit r)) = Inr (digits_value (x # take 1 (takeWhile is_digit r)))"
  by (cases r) (auto simp: py_int_def max_str_digits_def)

lemma digits_value_1: "digits_value [c] = digit_val c"
  by (simp add: digits_value_def)

lemma digits_value_2: "digits_value [x, y] = 10 * digit_val x + digit_val y"
  by (simp add: digits_value_def)

lemma digits_value_le2:
  assumes "is_digit x"
  shows "0 \<le> digits_value (x # take 1 (takeWhile is_digit r)) \<and>
         digits_value (x # take 1 (takeWhile is_digit r)) \<le> 99"
proof (cases r)
  case Nil
  then show ?thesis using is_digit_bounds [OF assms] by (simp add: digits_value_1)
next
  case (Cons y ys)
  show ?thesis
  proof (cases "is_digit y")
    case True
    then show ?thesis using is_digit_bounds [OF assms] is_digit_bounds [OF True] Cons
      by (simp add: digits_value_2)
  next
    case False
    then show ?thesis using is_digit_bounds [OF assms] Cons by (simp add: digits_value_1)
  qed
qed

lemma find_numeric_value_shape:
  "find_numeric_value p t = Inr x \<Longrightarrow> x = PyNone \<or> (\<exists>v. x = PyInt v)"
  by (auto simp: find_numeric_value_def split: option.splits sum.splits)

lemma not_Inl_ValueError: "x \<noteq> Inl ValueError \<Longrightarrow> \<exists>v. x = Inr v"
  by (cases x) (auto intro: error.exhaust)

lemma find_difficulty_ok:
  assumes "\<exists>sp c rest. s = l @ CHR '':'' # sp @ c # rest \<and> list_all is_space sp \<and>
             c \<in> set ''012345'' \<and> g = [c]"
  shows "py_int g = Inr (digits_value g)"
proof -
  from assms obtain c where "c \<in> set ''012345''" "g = [c]" by blast
  then show ?thesis using py_int_1 [OF is_digit_05] by blast
qed

lemma find_pain_ok:
  assumes "\<exists>sp x rest. s = l @ CHR '':'' # sp @ x # rest \<and> list_all is_space sp \<and>
             is_digit x \<and> g = x # take 1 (takeWhile is_digit rest)"
  shows "py_int g = Inr (digits_value g)"
proof -
  from assms obtain x rest where "is_digit x" "g = x # take 1 (takeWhile is_digit rest)" by blast
  then show ?thesis using py_int_le2 by blast
qed

lemma find_difficulty_total: "\<exists>v. find_numeric_value (difficulty_pattern task) t = Inr v"
  by (rule not_Inl_ValueError)
     (rule find_numeric_value_iff(3) [OF match_at_difficulty_iff find_difficulty_ok])

lemma find_pain_total: "\<exists>v. find_numeric_value (pain_pattern symptom) t = Inr v"
  by (rule not_Inl_ValueError)
     (rule find_numeric_value_iff(3) [OF match_at_pain_iff find_pain_ok])

lemma find_difficulty_range:
  assumes "find_numeric_value (difficulty_pattern task) t = Inr x"
  shows "x = PyNone \<or> (\<exists>v. x = PyInt v \<and> 0 \<le> v \<and> v \<le> 5)"
proof -
  from find_numeric_value_shape [OF assms] show ?thesis
  proof
    assume "x = PyNone" then show ?thesis ..
  next
    assume "\<exists>v. x = PyInt v"
    then obtain v where v: "x = PyInt v" ..
    have "\<exists>i g. i \<le> length t \<and>
        (\<exists>sp c rest. drop i t = title (replace_underscore task) @ CHR '':'' # sp @ c # rest \<and>
           list_all is_space sp \<and> c \<in> set ''012345'' \<and> g = [c]) \<and>
        (\<forall>j<i. \<not> (\<exists>g'. \<exists>sp c rest. drop j t = title (replace_underscore task) @ CHR '':'' # sp @ c # rest \<and>
           list_all is_space sp \<and> c \<in> set ''012345'' \<and> g' = [c])) \<and> v = digits_value g"
      by (rule iffD1 [OF find_numeric_value_iff(1) [OF match_at_difficulty_iff find_difficulty_ok]
            assms [unfolded v]])
    then obtain g where g: "\<exists>c. c \<in> set ''012345'' \<and> g = [c]" and vg: "v = digits_value g"
      by (elim exE conjE) (rule that, rule exI, rule conjI)
    from g vg obtain c where "c \<in> set ''012345''" "v = digits_value [c]" by (elim exE conjE) simp
    then have "0 \<le> v \<and> v \<le> 5" using digit_val_05 [of c] by (simp add: digits_value_1)
    then show ?thesis using v by blast
  qed
qed

lemma find_pain_range:
  assumes "find_numeric_value (pain_pattern symptom) t = Inr x"
  shows "x = PyNone \<or> (\<exists>v. x = PyInt v \<and> 0 \<le> v \<and> v \<le> 99)"
proof -
  from find_numeric_value_shape [OF assms] show ?thesis
  proof
    assume "x = PyNone" then show ?thesis ..
  next
    assume "\<exists>v. x = PyInt v"
    then obtain v where v: "x = PyInt v" ..
    have "\<exists>i g. i \<le> length t \<and>
        (\<exists>sp x rest. drop i t = title symptom @ CHR '':'' # sp @ x # rest \<and>
           list_all is_space sp \<and> is_digit x \<and> g = x # take 1 (takeWhile is_digit rest)) \<and>
        (\<forall>j<i. \<not> (\<exists>g'. \<exists>sp x rest. drop j t = title symptom @ CHR '':'' # sp @ x # rest \<and>
           list_all is_space sp \<and> is_digit x \<and> g' = x # take 1 (takeWhile is_digit rest))) \<and> v = digits_value g"
      by (rule iffD1 [OF find_numeric_value_iff(1) [OF match_at_pain_iff find_pain_ok]
            assms [unfolded v]])
    then obtain g where g: "\<exists>y r. is_digit y \<and> g = y # take 1 (takeWhile is_digit r)" and vg: "v = digits_value g"
      by (elim exE conjE) (rule that, rule exI, rule exI, rule conjI)
    from g vg obtain y r where "is_digit y" "v = digits_value (y # take 1 (takeWhile is_digit r))"
      by (elim exE conjE) simp
    then have "0 \<le> v \<and> v \<le> 99" using digits_value_le2 [of y r] by simp
    then show ?thesis using v by blast
  qed
qed

lemma distinct_difficulty_tasks: "distinct (difficulty_tasks init)"
  by (simp add: init_def)

lemma distinct_pain_symptoms: "distinct (pain_symptoms init)"
  by (simp add: init_def)

lemma extract_difficulty_ratings_total: "\<exists>dr. extract_difficulty_ratings self text = Inr dr"
  unfolding extract_difficulty_ratings_def by (rule dict_comp_total) (rule find_difficulty_total)

lemma extract_pain_symptoms_total: "\<exists>ps. extract_pain_symptoms self text = Inr ps"
  unfolding extract_pain_symptoms_def by (rule dict_comp_total) (rule find_pain_total)

lemma extract_difficulty_ratings_get:
  assumes "extract_difficulty_ratings init text = Inr dr"
  shows "keys dr = difficulty_tasks init"
    and "dict_get dr task = Some x \<longleftrightarrow>
           task \<in> set (difficulty_tasks init) \<and> find_numeric_value (difficulty_pattern task) text = Inr x"
proof -
  note d = dict_comp_Inr [OF distinct_difficulty_tasks assms [unfolded extract_difficulty_ratings_def]]
  show "keys dr = difficulty_tasks init" unfolding d(1) by (rule keys_map)
  show "dict_get dr task = Some x \<longleftrightarrow>
           task \<in> set (difficulty_tasks init) \<and> find_numeric_value (difficulty_pattern task) text = Inr x"
  proof (cases "task \<in> set (difficulty_tasks init)")
    case True
    have "dict_get dr task = Some (projr (find_numeric_value (difficulty_pattern task) text))"
      unfolding d(1) dict_get_map using True by simp
    moreover have "find_numeric_value (difficulty_pattern task) text =
        Inr (projr (find_numeric_value (difficulty_pattern task) text))" using d(2) [OF True] .
    ultimately show ?thesis using True by (metis option.inject sum.inject(2))
  next
    case False
    have "dict_get dr task = None" unfolding d(1) dict_get_map using False by simp
    then show ?thesis using False by simp
  qed
qed

lemma extract_pain_symptoms_get:
  assumes "extract_pain_symptoms init text = Inr ps"
  shows "keys ps = pain_symptoms init"
    and "dict_get ps symptom = Some x \<longleftrightarrow>
           symptom \<in> set (pain_symptoms init) \<and> find_numeric_value (pain_pattern symptom) text = Inr x"
proof -
  note d = dict_comp_Inr [OF distinct_pain_symptoms assms [unfolded extract_pain_symptoms_def]]
  show "keys ps = pain_symptoms init" unfolding d(1) by (rule keys_map)
  show "dict_get ps symptom = Some x \<longleftrightarrow>
           symptom \<in> set (pain_symptoms init) \<and> find_numeric_value (pain_pattern symptom) text = Inr x"
  proof (cases "symptom \<in> set (pain_symptoms init)")
    case True
    have "dict_get ps symptom = Some (projr (find_numeric_value (pain_pattern symptom) text))"
      unfolding d(1) dict_get_map using True by simp
    moreover have "find_numeric_value (pain_pattern symptom) text =
        Inr (projr (find_numeric_value (pain_pattern symptom) text))" using d(2) [OF True] .
    ultimately show ?thesis using True by (metis option.inject sum.inject(2))
  next
    case False
    have "dict_get ps symptom = None" unfolding d(1) dict_get_map using False by simp
    then show ?thesis using False by simp
  qed
qed

lemma parse_ocr_output_Inr:
  "parse_ocr_output self text = Inr data \<longleftrightarrow>
     (\<exists>dr ps ma. extract_difficulty_ratings self text = Inr dr \<and>
        extract_pain_symptoms self text = Inr ps \<and> extract_ma_data text = Inr ma \<and>
        data = [(''patient_details'', extract_patient_info text),
                (''treatment_details'', extract_treatment_info text),
                (''difficulty_ratings'', dr),
                (''patient_changes'', extract_patient_changes text),
                (''pain_symptoms'', ps),
                (''medical_assistant_data'', ma)])"
  unfolding parse_ocr_output_def on_ok_Inr on_ok_eq_Inr by auto


lemma find_difficulty_iff:
  "find_numeric_value (difficulty_pattern task) t = Inr (PyInt v) \<longleftrightarrow>
     (\<exists>i c. i \<le> length t \<and>
        ((\<exists>sp rest. drop i t = title (replace_underscore task) @ CHR '':'' # sp @ c # rest \<and>
            list_all is_space sp) \<and> c \<in> set ''012345'') \<and>
        (\<forall>j<i. \<not> (\<exists>c'. (\<exists>sp rest. drop j t = title (replace_underscore task) @ CHR '':'' # sp @ c' # rest \<and>
            list_all is_space sp) \<and> c' \<in> set ''012345'')) \<and>
        v = digit_val c)"
  "find_numeric_value (difficulty_pattern task) t = Inr PyNone \<longleftrightarrow>
     (\<forall>i\<le>length t. \<not> (\<exists>c. (\<exists>sp rest. drop i t = title (replace_underscore task) @ CHR '':'' # sp @ c # rest \<and>
            list_all is_space sp) \<and> c \<in> set ''012345''))"
proof -
  define C where "C s c \<longleftrightarrow>
      (\<exists>sp rest. s = title (replace_underscore task) @ CHR '':'' # sp @ c # rest \<and> list_all is_space sp) \<and>
      c \<in> set ''012345''" for s c
  define M where "M s g \<longleftrightarrow> (\<exists>sp c rest. s = title (replace_underscore task) @ CHR '':'' # sp @ c # rest \<and>
        list_all is_space sp \<and> c \<in> set ''012345'' \<and> g = [c])" for s g
  have MC: "M s g \<longleftrightarrow> (\<exists>c. C s c \<and> g = [c])" for s g
    unfolding M_def C_def by blast
  have m: "match_at False (difficulty_pattern task) s = Some g \<longleftrightarrow> M s g" for s g
    unfolding M_def by (rule match_at_difficulty_iff)
  have ok: "M s g \<Longrightarrow> py_int g = Inr (digits_value g)" for s g
    unfolding M_def by (rule find_difficulty_ok)
  note g = find_numeric_value_iff [of "difficulty_pattern task" M, OF m ok]
  have e1: "(\<exists>g'. M s g') \<longleftrightarrow> (\<exists>c'. C s c')" for s
    unfolding MC by blast
  have "find_numeric_value (difficulty_pattern task) t = Inr (PyInt v) \<longleftrightarrow>
      (\<exists>i g. i \<le> length t \<and> M (drop i t) g \<and> (\<forall>j<i. \<not> (\<exists>g'. M (drop j t) g')) \<and> v = digits_value g)"
    by (rule g(1))
  also have "\<dots> \<longleftrightarrow>
     (\<exists>i c. i \<le> length t \<and> C (drop i t) c \<and> (\<forall>j<i. \<not> (\<exists>c'. C (drop j t) c')) \<and> v = digit_val c)"
  proof
    assume "\<exists>i g. i \<le> length t \<and> M (drop i t) g \<and> (\<forall>j<i. \<not> (\<exists>g'. M (drop j t) g')) \<and> v = digits_value g"
    then obtain i g where a: "i \<le> length t" "M (drop i t) g" "\<forall>j<i. \<not> (\<exists>g'. M (drop j t) g')"
      "v = digits_value g" by blast
    from a(2) obtain c where c: "C (drop i t) c" "g = [c]" unfolding MC by blast
    have "\<forall>j<i. \<not> (\<exists>c'. C (drop j t) c')" using a(3) unfolding e1 .
    moreover have "v = digit_val c" using a(4) c(2) by (simp add: digits_value_1)
    ultimately show "\<exists>i c. i \<le> length t \<and> C (drop i t) c \<and> (\<forall>j<i. \<not> (\<exists>c'. C (drop j t) c')) \<and> v = digit_val c"
      using a(1) c(1) by blast
  next
    assume "\<exists>i c. i \<le> length t \<and> C (drop i t) c \<and> (\<forall>j<i. \<not> (\<exists>c'. C (drop j t) c')) \<and> v = digit_val c"
    then obtain i c where a: "i \<le> length t" "C (drop i t) c" "\<forall>j<i. \<not> (\<exists>c'. C (drop j t) c')"
      "v = digit_val c" by blast
    have "M (drop i t) [c]" unfolding MC using a(2) by blast
    moreover have "\<forall>j<i. \<not> (\<exists>g'. M (drop j t) g')" using a(3) unfolding e1 .
    moreover have "v = digits_value [c]" using a(4) by (simp add: digits_value_1)
    ultimately show "\<exists>i g. i \<le> length t \<and> M (drop i t) g \<and> (\<forall>j<i. \<not> (\<exists>g'. M (drop j t) g')) \<and> v = digits_value g"
      using a(1) by blast
  qed
  finally show "find_numeric_value (difficulty_pattern task) t = Inr (PyInt v) \<longleftrightarrow>
     (\<exists>i c. i \<le> length t \<and>
        ((\<exists>sp rest. drop i t = title (replace_underscore task) @ CHR '':'' # sp @ c # rest \<and>
            list_all is_space sp) \<and> c \<in> set ''012345'') \<and>
        (\<forall>j<i. \<not> (\<exists>c'. (\<exists>sp rest. drop j t = title (replace_underscore task) @ CHR '':'' # sp @ c' # rest \<and>
            list_all is_space sp) \<and> c' \<in> set ''012345'')) \<and>
        v = digit_val c)"
    unfolding C_def .
  have "find_numeric_value (difficulty_pattern task) t = Inr PyNone \<longleftrightarrow>
      (\<forall>i\<le>length t. \<not> (\<exists>g. M (drop i t) g))"
    by (rule g(2))
  also have "\<dots> \<longleftrightarrow> (\<forall>i\<le>length t. \<not> (\<exists>c. C (drop i t) c))"
    unfolding e1 ..
  finally show "find_numeric_value (difficulty_pattern task) t = Inr PyNone \<longleftrightarrow>
     (\<forall>i\<le>length t. \<not> (\<exists>c. (\<exists>sp rest. drop i t = title (replace_underscore task) @ CHR '':'' # sp @ c # rest \<and>
            list_all is_space sp) \<and> c \<in> set ''012345''))"
    unfolding C_def .
qed

lemma stairs_examples:
  "extract_difficulty_ratings init ''Stairs: 3'' =
     Inr [(''bending_or_stooping'', PyNone), (''putting_on_shoes'', PyNone), (''sleeping'', PyNone),
          (''standing_for_an_hour'', PyNone), (''stairs'', PyInt 3), (''walking_through_store'', PyNone),
          (''driving'', PyNone), (''preparing_meal'', PyNone), (''yard_work'', PyNone),
          (''picking_up_items'', PyNone)]"
  "extract_difficulty_ratings init ''Stairs: 7'' =
     Inr [(''bending_or_stooping'', PyNone), (''putting_on_shoes'', PyNone), (''sleeping'', PyNone),
          (''standing_for_an_hour'', PyNone), (''stairs'', PyNone), (''walking_through_store'', PyNone),
          (''driving'', PyNone), (''preparing_meal'', PyNone), (''yard_work'', PyNone),
          (''picking_up_items'', PyNone)]"
  by code_simp+

lemma title_stairs: "title (replace_underscore ''stairs'') = ''Stairs''"
  by code_simp

lemma find_checkbox_iff:
  "find_checkbox p t = PyStr tok \<longleftrightarrow> re_search False p t = Some tok"
  "find_checkbox p t = PyNone \<longleftrightarrow> re_search False p t = None"
  by (auto simp: find_checkbox_def split: option.splits)

lemma checkbox_examples:
  "extract_treatment_info ''INJECTION : YES'' =
     [(''date'', PyNone), (''injection'', PyStr ''YES''), (''exercise_therapy'', PyNone)]"
  "extract_treatment_info ''INJECTION : MAYBE'' =
     [(''date'', PyNone), (''injection'', PyNone), (''exercise_therapy'', PyNone)]"
  by code_simp+

lemma py_int_long: "max_str_digits < length s \<Longrightarrow> py_int s = Inl ValueError"
  by (simp add: py_int_def)

lemma is_digit_1: "is_digit CHR ''1''"
  by (simp add: is_digit_def)

lemma find_number_long:
  assumes "max_str_digits \<le> n"
  shows "find_numeric_value (number_pattern l) (l @ CHR '':'' # replicate (Suc n) CHR ''1'') = Inl ValueError"
proof -
  let ?t = "l @ CHR '':'' # replicate (Suc n) CHR ''1''"
  let ?g = "CHR ''1'' # takeWhile is_digit (replicate n CHR ''1'')"
  have e: "?t = l @ [] @ CHR '':'' # [] @ CHR ''1'' # replicate n CHR ''1''" by simp
  have "\<exists>sp1 sp2 x rest. ?t = l @ sp1 @ CHR '':'' # sp2 @ x # rest \<and>
        list_all is_space sp1 \<and> list_all is_space sp2 \<and> is_digit x \<and> ?g = x # takeWhile is_digit rest"
    by (rule exI [of _ "[]"], rule exI [of _ "[]"], rule exI [of _ "CHR ''1''"],
        rule exI [of _ "replicate n CHR ''1''"]) (intro conjI e is_digit_1 refl, simp_all)
  then have m: "match_at False (number_pattern l) ?t = Some ?g"
    by (rule iffD2 [OF match_at_number_iff])
  have "\<exists>i\<le>length ?t. match_at False (number_pattern l) (drop i ?t) = Some ?g \<and>
      (\<forall>j<i. match_at False (number_pattern l) (drop j ?t) = None)"
    by (rule exI [of _ 0]) (simp add: m del: replicate_Suc)
  then have r: "re_search False (number_pattern l) ?t = Some ?g"
    by (rule iffD2 [OF re_search_Some_iff])
  have "length ?g = Suc n" by (simp add: is_digit_1)
  then have "py_int ?g = Inl ValueError" using assms by (intro py_int_long) simp
  then show ?thesis unfolding find_numeric_value_def r by simp
qed

section \<open>The leftmost match\<close>

text \<open>
  Claim C9. Whatever the pattern and the flag, when the pattern matches at several
  positions of the text the value comes from the leftmost one: if the pattern matches at
  offset \<open>i\<close> with group text \<open>g\<close> and at no smaller offset, then \<^verbatim>\<open>re.search\<close> returns that
  match, \<^verbatim>\<open>_find_value\<close> returns \<open>g\<close> stripped, \<^verbatim>\<open>_find_checkbox\<close> returns \<open>g\<close> and
  \<^verbatim>\<open>_find_numeric_value\<close> returns \<^verbatim>\<open>int(g)\<close>, whatever matches further right.
\<close>

theorem leftmost_match_is_taken:
  "i \<le> length text \<Longrightarrow> match_at dotall p (drop i text) = Some g \<Longrightarrow>
   (\<forall>j<i. match_at dotall p (drop j text) = None) \<Longrightarrow>
   re_search dotall p text = Some g \<and>
   find_value p text dotall = PyStr (strip g) \<and>
   (\<not> dotall \<longrightarrow>
      find_checkbox p text = PyStr g \<and>
      find_numeric_value p text = (case py_int g of Inl e \<Rightarrow> Inl e | Inr n \<Rightarrow> Inr (PyInt n)))"
proof -
  assume a: "i \<le> length text" "match_at dotall p (drop i text) = Some g"
    "\<forall>j<i. match_at dotall p (drop j text) = None"
  then have s: "re_search dotall p text = Some g"
    using re_search_Some_iff [of dotall p "text" g] by blast
  show ?thesis
  proof (cases dotall)
    case True
    then show ?thesis using s by (simp add: find_value_def)
  next
    case False
    then show ?thesis using s by (simp add: find_value_def find_checkbox_def find_numeric_value_def)
  qed
qed

theorem leftmost_match_is_taken_witness:
  "(2::nat) \<le> length ''x Stairs: 1 Stairs: 2'' \<and>
   match_at False (difficulty_pattern ''stairs'') (drop 2 ''x Stairs: 1 Stairs: 2'') = Some ''1'' \<and>
   match_at False (difficulty_pattern ''stairs'') (drop 0 ''x Stairs: 1 Stairs: 2'') = None \<and>
   match_at False (difficulty_pattern ''stairs'') (drop (Suc 0) ''x Stairs: 1 Stairs: 2'') = None \<and>
   match_at False (difficulty_pattern ''stairs'') (drop 12 ''x Stairs: 1 Stairs: 2'') = Some ''2'' \<and>
   find_numeric_value (difficulty_pattern ''stairs'') ''x Stairs: 1 Stairs: 2'' = Inr (PyInt 1)"
proof -
  have a: "(2::nat) \<le> length ''x Stairs: 1 Stairs: 2''" by simp
  have b: "match_at False (difficulty_pattern ''stairs'') (drop 2 ''x Stairs: 1 Stairs: 2'') = Some ''1''"
    by code_simp
  have c0: "match_at False (difficulty_pattern ''stairs'') (drop 0 ''x Stairs: 1 Stairs: 2'') = None"
    by code_simp
  have c1: "match_at False (difficulty_pattern ''stairs'') (drop (Suc 0) ''x Stairs: 1 Stairs: 2'') = None"
    by code_simp
  have c: "\<forall>j<2. match_at False (difficulty_pattern ''stairs'') (drop j ''x Stairs: 1 Stairs: 2'') = None"
    using c0 c1 by (metis less_2_cases)
  have d: "match_at False (difficulty_pattern ''stairs'') (drop 12 ''x Stairs: 1 Stairs: 2'') = Some ''2''"
    by code_simp
  have e: "py_int ''1'' = Inr 1" by code_simp
  from leftmost_match_is_taken [OF a b c]
  have "find_numeric_value (difficulty_pattern ''stairs'') ''x Stairs: 1 Stairs: 2'' = Inr (PyInt 1)"
    using e by simp
  then show ?thesis using a b c0 c1 d by blast
qed


section \<open>Single-line text fields\<close>

text \<open>
  What \<^verbatim>\<open>LABEL\s*:\s*(.*)\<close> finds, as it is written. The value is a string exactly when
  the text holds, at some offset, the label, then white space, then a colon; the leftmost
  such offset decides. The second \<^verbatim>\<open>\s*\<close> also takes line feeds, so the group starts at
  the first character after the colon that is not white space, on whatever line that is,
  and runs to the end of that line.
\<close>

lemma line_pattern_value:
  "(find_value (line_pattern l) text False = PyStr v \<longleftrightarrow>
      (\<exists>i sp rest.
          i \<le> length text \<and> drop i text = l @ sp @ CHR '':'' # rest \<and> list_all is_space sp \<and>
          (\<forall>j<i. \<not> (\<exists>sp' rest'. drop j text = l @ sp' @ CHR '':'' # rest' \<and> list_all is_space sp')) \<and>
          v = strip (takeWhile (\<lambda>c. c \<noteq> nl) (dropWhile is_space rest)))) \<and>
   (find_value (line_pattern l) text False = PyNone \<longleftrightarrow>
      (\<forall>i\<le>length text. \<not> (\<exists>sp rest. drop i text = l @ sp @ CHR '':'' # rest \<and> list_all is_space sp)))"
proof -
  have s: "re_search False (line_pattern l) text = Some g \<longleftrightarrow>
      (\<exists>i\<le>length text.
          (\<exists>sp rest. drop i text = l @ sp @ CHR '':'' # rest \<and> list_all is_space sp \<and>
             g = takeWhile (\<lambda>c. c \<noteq> nl) (dropWhile is_space rest)) \<and>
          (\<forall>j<i. \<not> (\<exists>sp rest. drop j text = l @ sp @ CHR '':'' # rest \<and> list_all is_space sp)))" for g
    by (rule re_search_by_offsets(1) [OF match_at_line_iff match_at_line_None_iff])
  have n: "re_search False (line_pattern l) text = None \<longleftrightarrow>
      (\<forall>i\<le>length text. \<not> (\<exists>sp rest. drop i text = l @ sp @ CHR '':'' # rest \<and> list_all is_space sp))"
    by (rule re_search_by_offsets(2) [OF match_at_line_iff match_at_line_None_iff])
  have a: "find_value (line_pattern l) text False = PyStr v \<longleftrightarrow>
      (\<exists>i sp rest.
          i \<le> length text \<and> drop i text = l @ sp @ CHR '':'' # rest \<and> list_all is_space sp \<and>
          (\<forall>j<i. \<not> (\<exists>sp' rest'. drop j text = l @ sp' @ CHR '':'' # rest' \<and> list_all is_space sp')) \<and>
          v = strip (takeWhile (\<lambda>c. c \<noteq> nl) (dropWhile is_space rest)))"
    unfolding find_value_iff s by blast
  have b: "find_value (line_pattern l) text False = PyNone \<longleftrightarrow>
      (\<forall>i\<le>length text. \<not> (\<exists>sp rest. drop i text = l @ sp @ CHR '':'' # rest \<and> list_all is_space sp))"
    unfolding find_value_iff n ..
  show ?thesis using a b by (rule conjI)
qed

text \<open>
  The rule \<^verbatim>\<open>last_3_days\<close>, whose pattern \<^verbatim>\<open>LABEL:(.*)\<close> has no \<^verbatim>\<open>\s*\<close> after the colon,
  keeps to the label's line: a blank value there is the empty string.
\<close>

lemma last_3_days_blank_value:
  "dict_get (extract_patient_changes
       (''Describe any functional changes within the last three days (good or bad):'' @ [nl] @
        ''DOB : 1990-01-01'')) ''last_3_days'' = Some (PyStr [])"
  by code_simp

text \<open>
  Claim C5: the value of a single-line text rule consists of characters that follow the
  label on the label's own line, and a blank value region gives the empty string. The
  code does not do this. With a blank value after \<^verbatim>\<open>Patient Name :\<close> and another line
  below, \<^verbatim>\<open>patient_name\<close> is neither taken from the label's line nor the empty string:
  it is the whole next line, label included.
\<close>

theorem blank_value_takes_next_line:
  "extract_patient_info (''Patient Name :'' @ [nl] @ ''DOB : 1990-01-01'') =
     [(''patient_name'', PyStr ''DOB : 1990-01-01''), (''dob'', PyStr ''1990-01-01'')]"
  by code_simp

section \<open>Every group and every field is present\<close>



section \<open>Ranges of the ratings\<close>

text \<open>
  Claim C7. For every text the two comprehensions return (no rating pattern captures
  more than two digits, so \<^verbatim>\<open>int\<close> cannot raise), every value of \<^verbatim>\<open>difficulty_ratings\<close> is
  \<^verbatim>\<open>None\<close> or an integer from 0 to 5, and every value of \<^verbatim>\<open>pain_symptoms\<close> is \<^verbatim>\<open>None\<close> or an
  integer from 0 to 99. These two dictionaries are the ones that \<^verbatim>\<open>parse_ocr_output\<close>
  stores under \<^verbatim>\<open>difficulty_ratings\<close> and \<^verbatim>\<open>pain_symptoms\<close> whenever it returns a record.
\<close>

theorem ratings_are_in_range:
  "\<exists>dr ps.
     extract_difficulty_ratings init text = Inr dr \<and>
     extract_pain_symptoms init text = Inr ps \<and>
     (\<forall>data. parse_ocr_output init text = Inr data \<longrightarrow>
        dict_get data ''difficulty_ratings'' = Some dr \<and> dict_get data ''pain_symptoms'' = Some ps) \<and>
     (\<forall>task x. dict_get dr task = Some x \<longrightarrow> x = PyNone \<or> (\<exists>v. x = PyInt v \<and> 0 \<le> v \<and> v \<le> 5)) \<and>
     (\<forall>symptom x. dict_get ps symptom = Some x \<longrightarrow> x = PyNone \<or> (\<exists>v. x = PyInt v \<and> 0 \<le> v \<and> v \<le> 99))"
proof -
  obtain dr where dr: "extract_difficulty_ratings init text = Inr dr"
    using extract_difficulty_ratings_total by blast
  obtain ps where ps: "extract_pain_symptoms init text = Inr ps"
    using extract_pain_symptoms_total by blast
  have a: "\<forall>data. parse_ocr_output init text = Inr data \<longrightarrow>
        dict_get data ''difficulty_ratings'' = Some dr \<and> dict_get data ''pain_symptoms'' = Some ps"
    unfolding parse_ocr_output_Inr dr ps by auto
  have b: "\<forall>task x. dict_get dr task = Some x \<longrightarrow> x = PyNone \<or> (\<exists>v. x = PyInt v \<and> 0 \<le> v \<and> v \<le> 5)"
    unfolding extract_difficulty_ratings_get(2) [OF dr] using find_difficulty_range by blast
  have c: "\<forall>symptom x. dict_get ps symptom = Some x \<longrightarrow> x = PyNone \<or> (\<exists>v. x = PyInt v \<and> 0 \<le> v \<and> v \<le> 99)"
    unfolding extract_pain_symptoms_get(2) [OF ps] using find_pain_range by blast
  show ?thesis
    by (rule exI [of _ dr], rule exI [of _ ps]) (intro conjI dr ps a b c)
qed

theorem ratings_are_in_range_witness:
  "\<exists>dr ps.
     extract_difficulty_ratings init (''Stairs: 5'' @ [nl] @ ''Pain: 99'') = Inr dr \<and>
     extract_pain_symptoms init (''Stairs: 5'' @ [nl] @ ''Pain: 99'') = Inr ps \<and>
     dict_get dr ''stairs'' = Some (PyInt 5) \<and>
     (PyInt 5 = PyNone \<or> (\<exists>v. PyInt 5 = PyInt v \<and> 0 \<le> v \<and> v \<le> 5)) \<and>
     dict_get ps ''pain'' = Some (PyInt 99) \<and>
     (PyInt 99 = PyNone \<or> (\<exists>v. PyInt 99 = PyInt v \<and> 0 \<le> v \<and> v \<le> 99))"
proof -
  have d: "extract_difficulty_ratings init (''Stairs: 5'' @ [nl] @ ''Pain: 99'') =
      Inr [(''bending_or_stooping'', PyNone), (''putting_on_shoes'', PyNone), (''sleeping'', PyNone),
           (''standing_for_an_hour'', PyNone), (''stairs'', PyInt 5), (''walking_through_store'', PyNone),
           (''driving'', PyNone), (''preparing_meal'', PyNone), (''yard_work'', PyNone),
           (''picking_up_items'', PyNone)]"
    by code_simp
  have p: "extract_pain_symptoms init (''Stairs: 5'' @ [nl] @ ''Pain: 99'') =
      Inr [(''pain'', PyInt 99), (''numbness'', PyNone), (''tingling'', PyNone), (''burning'', PyNone),
           (''tightness'', PyNone)]"
    by code_simp
  from ratings_are_in_range [of "''Stairs: 5'' @ [nl] @ ''Pain: 99''"]
  obtain dr ps where a: "extract_difficulty_ratings init (''Stairs: 5'' @ [nl] @ ''Pain: 99'') = Inr dr"
    "extract_pain_symptoms init (''Stairs: 5'' @ [nl] @ ''Pain: 99'') = Inr ps"
    "\<forall>task x. dict_get dr task = Some x \<longrightarrow> x = PyNone \<or> (\<exists>v. x = PyInt v \<and> 0 \<le> v \<and> v \<le> 5)"
    "\<forall>symptom x. dict_get ps symptom = Some x \<longrightarrow> x = PyNone \<or> (\<exists>v. x = PyInt v \<and> 0 \<le> v \<and> v \<le> 99)"
    by blast
  have s: "dict_get dr ''stairs'' = Some (PyInt 5)" using a(1) unfolding d by auto
  have q: "dict_get ps ''pain'' = Some (PyInt 99)" using a(2) unfolding p by auto
  show ?thesis
    by (rule exI [of _ dr], rule exI [of _ ps])
       (intro conjI a(1) a(2) s q a(3) [rule_format, OF s] a(4) [rule_format, OF q])
qed

section \<open>Determinism\<close>



section \<open>Difficulty ratings\<close>

text \<open>
  Claim C3, as amended. For every text the ratings are extracted without an exception,
  and for each task the value is an integer exactly when the text holds, at some offset,
  the task's label (its name with spaces for underscores, in title case), a colon,
  white space or none, and then a digit from 0 to 5; the leftmost such offset decides and
  the value is that one digit, whatever follows it. The value is \<^verbatim>\<open>None\<close> exactly when there
  is no such offset, so a value whose first digit is not 0 to 5 gives \<^verbatim>\<open>None\<close>. In
  particular \<^verbatim>\<open>Stairs: 3\<close> gives 3 and \<^verbatim>\<open>Stairs: 7\<close> gives \<^verbatim>\<open>None\<close>.
\<close>

theorem difficulty_rating_reads_first_digit:
  "\<exists>dr. extract_difficulty_ratings init text = Inr dr \<and>
     (\<forall>data. parse_ocr_output init text = Inr data \<longrightarrow> dict_get data ''difficulty_ratings'' = Some dr) \<and>
     (\<forall>task\<in>set (difficulty_tasks init). \<forall>v.
        (dict_get dr task = Some (PyInt v) \<longleftrightarrow>
           (\<exists>i c. i \<le> length text \<and>
              ((\<exists>sp rest. drop i text = title (replace_underscore task) @ CHR '':'' # sp @ c # rest \<and>
                  list_all is_space sp) \<and> c \<in> set ''012345'') \<and>
              (\<forall>j<i. \<not> (\<exists>c'. (\<exists>sp rest. drop j text =
                    title (replace_underscore task) @ CHR '':'' # sp @ c' # rest \<and>
                  list_all is_space sp) \<and> c' \<in> set ''012345'')) \<and>
              v = digit_val c)) \<and>
        (dict_get dr task = Some PyNone \<longleftrightarrow>
           (\<forall>i\<le>length text. \<not> (\<exists>c. (\<exists>sp rest. drop i text =
                    title (replace_underscore task) @ CHR '':'' # sp @ c # rest \<and>
                  list_all is_space sp) \<and> c \<in> set ''012345''))))"
proof -
  obtain dr where dr: "extract_difficulty_ratings init text = Inr dr"
    using extract_difficulty_ratings_total by blast
  have a: "\<forall>data. parse_ocr_output init text = Inr data \<longrightarrow> dict_get data ''difficulty_ratings'' = Some dr"
    unfolding parse_ocr_output_Inr dr by auto
  have g: "dict_get dr task = Some x \<longleftrightarrow> find_numeric_value (difficulty_pattern task) text = Inr x"
    if "task \<in> set (difficulty_tasks init)" for task x
    unfolding extract_difficulty_ratings_get(2) [OF dr] using that by simp
  have b: "\<forall>task\<in>set (difficulty_tasks init). \<forall>v.
        (dict_get dr task = Some (PyInt v) \<longleftrightarrow>
           (\<exists>i c. i \<le> length text \<and>
              ((\<exists>sp rest. drop i text = title (replace_underscore task) @ CHR '':'' # sp @ c # rest \<and>
                  list_all is_space sp) \<and> c \<in> set ''012345'') \<and>
              (\<forall>j<i. \<not> (\<exists>c'. (\<exists>sp rest. drop j text =
                    title (replace_underscore task) @ CHR '':'' # sp @ c' # rest \<and>
                  list_all is_space sp) \<and> c' \<in> set ''012345'')) \<and>
              v = digit_val c)) \<and>
        (dict_get dr task = Some PyNone \<longleftrightarrow>
           (\<forall>i\<le>length text. \<not> (\<exists>c. (\<exists>sp rest. drop i text =
                    title (replace_underscore task) @ CHR '':'' # sp @ c # rest \<and>
                  list_all is_space sp) \<and> c \<in> set ''012345'')))"
  proof (intro ballI allI conjI)
    fix task v assume t: "task \<in> set (difficulty_tasks init)"
    show "dict_get dr task = Some (PyInt v) \<longleftrightarrow>
           (\<exists>i c. i \<le> length text \<and>
              ((\<exists>sp rest. drop i text = title (replace_underscore task) @ CHR '':'' # sp @ c # rest \<and>
                  list_all is_space sp) \<and> c \<in> set ''012345'') \<and>
              (\<forall>j<i. \<not> (\<exists>c'. (\<exists>sp rest. drop j text =
                    title (replace_underscore task) @ CHR '':'' # sp @ c' # rest \<and>
                  list_all is_space sp) \<and> c' \<in> set ''012345'')) \<and>
              v = digit_val c)"
      using g [OF t, of "PyInt v"] find_difficulty_iff(1) [of task "text" v] by (rule trans)
    show "dict_get dr task = Some PyNone \<longleftrightarrow>
           (\<forall>i\<le>length text. \<not> (\<exists>c. (\<exists>sp rest. drop i text =
                    title (replace_underscore task) @ CHR '':'' # sp @ c # rest \<and>
                  list_all is_space sp) \<and> c \<in> set ''012345''))"
      using g [OF t, of PyNone] find_difficulty_iff(2) [of task "text"] by (rule trans)
  qed
  show ?thesis by (rule exI [of _ dr]) (intro conjI dr a b)
qed

theorem difficulty_rating_reads_first_digit_witness:
  "(\<exists>dr. extract_difficulty_ratings init ''Stairs: 3'' = Inr dr \<and>
     ''stairs'' \<in> set (difficulty_tasks init) \<and>
     dict_get dr ''stairs'' = Some (PyInt 3) \<and>
     (\<exists>i c. i \<le> length ''Stairs: 3'' \<and>
        ((\<exists>sp rest. drop i ''Stairs: 3'' = title (replace_underscore ''stairs'') @ CHR '':'' # sp @ c # rest \<and>
            list_all is_space sp) \<and> c \<in> set ''012345'') \<and>
        (\<forall>j<i. \<not> (\<exists>c'. (\<exists>sp rest. drop j ''Stairs: 3'' =
              title (replace_underscore ''stairs'') @ CHR '':'' # sp @ c' # rest \<and>
            list_all is_space sp) \<and> c' \<in> set ''012345'')) \<and>
        3 = digit_val c)) \<and>
   extract_difficulty_ratings init ''Stairs: 7'' =
     Inr [(''bending_or_stooping'', PyNone), (''putting_on_shoes'', PyNone), (''sleeping'', PyNone),
          (''standing_for_an_hour'', PyNone), (''stairs'', PyNone), (''walking_through_store'', PyNone),
          (''driving'', PyNone), (''preparing_meal'', PyNone), (''yard_work'', PyNone),
          (''picking_up_items'', PyNone)]"
proof -
  from difficulty_rating_reads_first_digit [of "''Stairs: 3''"]
  obtain dr where dr: "extract_difficulty_ratings init ''Stairs: 3'' = Inr dr"
    and b: "\<forall>task\<in>set (difficulty_tasks init). \<forall>v.
        (dict_get dr task = Some (PyInt v) \<longleftrightarrow>
           (\<exists>i c. i \<le> length ''Stairs: 3'' \<and>
              ((\<exists>sp rest. drop i ''Stairs: 3'' = title (replace_underscore task) @ CHR '':'' # sp @ c # rest \<and>
                  list_all is_space sp) \<and> c \<in> set ''012345'') \<and>
              (\<forall>j<i. \<not> (\<exists>c'. (\<exists>sp rest. drop j ''Stairs: 3'' =
                    title (replace_underscore task) @ CHR '':'' # sp @ c' # rest \<and>
                  list_all is_space sp) \<and> c' \<in> set ''012345'')) \<and>
              v = digit_val c)) \<and>
        (dict_get dr task = Some PyNone \<longleftrightarrow>
           (\<forall>i\<le>length ''Stairs: 3''. \<not> (\<exists>c. (\<exists>sp rest. drop i ''Stairs: 3'' =
                    title (replace_underscore task) @ CHR '':'' # sp @ c # rest \<and>
                  list_all is_space sp) \<and> c \<in> set ''012345'')))"
    by (elim exE conjE)
  have t: "''stairs'' \<in> set (difficulty_tasks init)" by (simp add: init_def)
  have s: "dict_get dr ''stairs'' = Some (PyInt 3)" using dr unfolding stairs_examples(1) by auto
  note e = iffD1 [OF conjunct1 [OF spec [OF bspec [OF b t], of 3]] s]
  have "\<exists>dr. extract_difficulty_ratings init ''Stairs: 3'' = Inr dr \<and>
     ''stairs'' \<in> set (difficulty_tasks init) \<and>
     dict_get dr ''stairs'' = Some (PyInt 3) \<and>
     (\<exists>i c. i \<le> length ''Stairs: 3'' \<and>
        ((\<exists>sp rest. drop i ''Stairs: 3'' = title (replace_underscore ''stairs'') @ CHR '':'' # sp @ c # rest \<and>
            list_all is_space sp) \<and> c \<in> set ''012345'') \<and>
        (\<forall>j<i. \<not> (\<exists>c'. (\<exists>sp rest. drop j ''Stairs: 3'' =
              title (replace_underscore ''stairs'') @ CHR '':'' # sp @ c' # rest \<and>
            list_all is_space sp) \<and> c' \<in> set ''012345'')) \<and>
        3 = digit_val c)"
    by (rule exI [of _ dr]) (intro conjI dr t s e)
  then show ?thesis using stairs_examples(2) by (rule conjI)
qed

text \<open>
  Claim C3 as stated fails: a value outside the one-digit width does match when its first
  digit is 0 to 5. The two-digit value 35 is not absent, it is read as 3.
\<close>

theorem second_digit_is_ignored:
  "extract_difficulty_ratings init ''Stairs: 35'' =
     Inr [(''bending_or_stooping'', PyNone), (''putting_on_shoes'', PyNone), (''sleeping'', PyNone),
          (''standing_for_an_hour'', PyNone), (''stairs'', PyInt 3), (''walking_through_store'', PyNone),
          (''driving'', PyNone), (''preparing_meal'', PyNone), (''yard_work'', PyNone),
          (''picking_up_items'', PyNone)]"
  by code_simp

section \<open>Labels are matched anywhere\<close>

text \<open>
  Claim C10, as amended. A label is searched for as a string, with its capital letters,
  at every offset: nothing ties it to the start of a line or of a word. Whatever text
  without a capital S stands before \<^verbatim>\<open>Stairs: 3\<close>, and whatever follows it, the field
  \<^verbatim>\<open>stairs\<close> is 3. So the label may be the end of a longer word, as in \<^verbatim>\<open>UpStairs: 3\<close>, or lie
  in the value of another field, as in \<^verbatim>\<open>Patient Name : UpStairs: 3\<close>, where \<^verbatim>\<open>patient_name\<close>
  is \<^verbatim>\<open>UpStairs: 3\<close> and \<^verbatim>\<open>stairs\<close> is 3.
\<close>

theorem label_is_not_anchored:
  assumes "CHR ''S'' \<notin> set pre"
  shows "\<exists>dr. extract_difficulty_ratings init (pre @ ''Stairs: 3'' @ post) = Inr dr \<and>
     dict_get dr ''stairs'' = Some (PyInt 3) \<and>
     (\<forall>data. parse_ocr_output init (pre @ ''Stairs: 3'' @ post) = Inr data \<longrightarrow>
        field data ''difficulty_ratings'' ''stairs'' = Some (PyInt 3))"
proof -
  let ?t = "pre @ ''Stairs: 3'' @ post"
  obtain dr where dr: "extract_difficulty_ratings init ?t = Inr dr"
    using extract_difficulty_ratings_total by blast
  have t: "''stairs'' \<in> set (difficulty_tasks init)" by (simp add: init_def)
  have i: "length pre \<le> length ?t" by simp
  have d: "drop (length pre) ?t = ''Stairs'' @ CHR '':'' # '' '' @ CHR ''3'' # post" by simp
  have c: "(\<exists>sp rest. drop (length pre) ?t = ''Stairs'' @ CHR '':'' # sp @ CHR ''3'' # rest \<and>
            list_all is_space sp) \<and> CHR ''3'' \<in> set ''012345''"
  proof (intro conjI)
    have "list_all is_space '' ''" by (simp add: is_space_def)
    with d show "\<exists>sp rest. drop (length pre) ?t = ''Stairs'' @ CHR '':'' # sp @ CHR ''3'' # rest \<and>
            list_all is_space sp" by blast
    show "CHR ''3'' \<in> set ''012345''" by simp
  qed
  have l: "\<forall>j<length pre. \<not> (\<exists>c'. (\<exists>sp rest. drop j ?t = ''Stairs'' @ CHR '':'' # sp @ c' # rest \<and>
            list_all is_space sp) \<and> c' \<in> set ''012345'')"
  proof (intro allI impI notI)
    fix j assume j: "j < length pre"
    assume "\<exists>c'. (\<exists>sp rest. drop j ?t = ''Stairs'' @ CHR '':'' # sp @ c' # rest \<and>
            list_all is_space sp) \<and> c' \<in> set ''012345''"
    then obtain u where u: "drop j ?t = ''Stairs'' @ u" by auto
    have "drop j ?t = (pre ! j # drop (Suc j) pre) @ ''Stairs: 3'' @ post"
      using j by (simp add: Cons_nth_drop_Suc)
    then have "pre ! j = CHR ''S''" using u by simp
    then have "CHR ''S'' \<in> set pre" using j nth_mem by metis
    then show False using assms by simp
  qed
  have v: "(3::int) = digit_val CHR ''3''" by (simp add: digit_val_def)
  have "find_numeric_value (difficulty_pattern ''stairs'') ?t = Inr (PyInt 3)"
    unfolding find_difficulty_iff(1) title_stairs
    by (rule exI [of _ "length pre"], rule exI [of _ "CHR ''3''"]) (intro conjI i c [THEN conjunct1] c [THEN conjunct2] l v)
  then have s: "dict_get dr ''stairs'' = Some (PyInt 3)"
    unfolding extract_difficulty_ratings_get(2) [OF dr] using t by simp
  have a: "\<forall>data. parse_ocr_output init ?t = Inr data \<longrightarrow>
        field data ''difficulty_ratings'' ''stairs'' = Some (PyInt 3)"
    unfolding parse_ocr_output_Inr dr using s by (auto simp: field_def)
  show ?thesis by (rule exI [of _ dr]) (intro conjI dr s a)
qed

theorem label_is_not_anchored_witness:
  "CHR ''S'' \<notin> set ''Patient Name : Up'' \<and>
   (\<exists>dr. extract_difficulty_ratings init (''Patient Name : Up'' @ ''Stairs: 3'' @ []) = Inr dr \<and>
      dict_get dr ''stairs'' = Some (PyInt 3)) \<and>
   extract_patient_info (''Patient Name : Up'' @ ''Stairs: 3'' @ []) =
     [(''patient_name'', PyStr ''UpStairs: 3''), (''dob'', PyNone)]"
proof -
  have n: "CHR ''S'' \<notin> set ''Patient Name : Up''" by simp
  from label_is_not_anchored [OF n, of "[]"]
  have e: "\<exists>dr. extract_difficulty_ratings init (''Patient Name : Up'' @ ''Stairs: 3'' @ []) = Inr dr \<and>
      dict_get dr ''stairs'' = Some (PyInt 3)"
    by (elim exE conjE) (rule exI, rule conjI)
  have p: "extract_patient_info (''Patient Name : Up'' @ ''Stairs: 3'' @ []) =
     [(''patient_name'', PyStr ''UpStairs: 3''), (''dob'', PyNone)]"
    by code_simp
  from n e p show ?thesis by (intro conjI)
qed

text \<open>
  Claim C10 as stated fails at its own example: the search is case-sensitive, so the
  label \<^verbatim>\<open>Stairs\<close> does not occur in \<^verbatim>\<open>Upstairs: 3\<close> and \<^verbatim>\<open>stairs\<close> is \<^verbatim>\<open>None\<close> there.
\<close>

theorem lower_case_label_is_not_matched:
  "extract_difficulty_ratings init ''Upstairs: 3'' =
     Inr [(''bending_or_stooping'', PyNone), (''putting_on_shoes'', PyNone), (''sleeping'', PyNone),
          (''standing_for_an_hour'', PyNone), (''stairs'', PyNone), (''walking_through_store'', PyNone),
          (''driving'', PyNone), (''preparing_meal'', PyNone), (''yard_work'', PyNone),
          (''picking_up_items'', PyNone)]"
  by code_simp

section \<open>Checkbox fields\<close>

text \<open>
  Claim C4, as amended. A checkbox field with label \<open>l\<close> is a string exactly when the text
  holds, at some offset, the label, white space or none, a colon, white space or none,
  and then the letters \<^verbatim>\<open>YES\<close> or \<^verbatim>\<open>NO\<close>; the leftmost such offset decides, and the value is
  \<^verbatim>\<open>YES\<close> or \<^verbatim>\<open>NO\<close>, whatever follows these letters. It is \<^verbatim>\<open>None\<close> exactly when there is no
  such offset. The fields \<^verbatim>\<open>injection\<close> and \<^verbatim>\<open>exercise_therapy\<close> of the record are read in
  this way. In particular \<^verbatim>\<open>INJECTION : YES\<close> gives \<^verbatim>\<open>YES\<close> and \<^verbatim>\<open>INJECTION : MAYBE\<close> gives
  \<^verbatim>\<open>None\<close>.
\<close>

theorem checkbox_reads_yes_or_no:
  "(find_checkbox (checkbox_pattern l) text = PyStr tok \<longleftrightarrow>
      (\<exists>i\<le>length text.
          (\<exists>sp1 sp2 rest. drop i text = l @ sp1 @ CHR '':'' # sp2 @ tok @ rest \<and>
             list_all is_space sp1 \<and> list_all is_space sp2 \<and> (tok = ''YES'' \<or> tok = ''NO'')) \<and>
          (\<forall>j<i. \<not> (\<exists>tok' sp1 sp2 rest. drop j text = l @ sp1 @ CHR '':'' # sp2 @ tok' @ rest \<and>
             list_all is_space sp1 \<and> list_all is_space sp2 \<and> (tok' = ''YES'' \<or> tok' = ''NO''))))) \<and>
   (find_checkbox (checkbox_pattern l) text = PyNone \<longleftrightarrow>
      (\<forall>i\<le>length text.
          \<not> (\<exists>tok' sp1 sp2 rest. drop i text = l @ sp1 @ CHR '':'' # sp2 @ tok' @ rest \<and>
             list_all is_space sp1 \<and> list_all is_space sp2 \<and> (tok' = ''YES'' \<or> tok' = ''NO'')))) \<and>
   dict_get (extract_treatment_info text) ''injection'' =
      Some (find_checkbox (checkbox_pattern ''INJECTION'') text) \<and>
   dict_get (extract_treatment_info text) ''exercise_therapy'' =
      Some (find_checkbox (checkbox_pattern ''Exercise Therapy'') text) \<and>
   (\<forall>data. parse_ocr_output init text = Inr data \<longrightarrow>
      dict_get data ''treatment_details'' = Some (extract_treatment_info text))"
proof -
  define M where "M s g \<longleftrightarrow> (\<exists>sp1 sp2 rest. s = l @ sp1 @ CHR '':'' # sp2 @ g @ rest \<and>
       list_all is_space sp1 \<and> list_all is_space sp2 \<and> (g = ''YES'' \<or> g = ''NO''))" for s g
  have m: "match_at False (checkbox_pattern l) s = Some g \<longleftrightarrow> M s g" for s g
    unfolding M_def by (rule match_at_checkbox_iff)
  have n: "match_at False (checkbox_pattern l) s = None \<longleftrightarrow> \<not> (\<exists>g. M s g)" for s
    using m by (rule match_at_None_from_Some)
  have a: "find_checkbox (checkbox_pattern l) text = PyStr tok \<longleftrightarrow>
      (\<exists>i\<le>length text. M (drop i text) tok \<and> (\<forall>j<i. \<not> (\<exists>g. M (drop j text) g)))"
    unfolding find_checkbox_iff by (rule re_search_by_offsets(1) [OF m n])
  have b: "find_checkbox (checkbox_pattern l) text = PyNone \<longleftrightarrow>
      (\<forall>i\<le>length text. \<not> (\<exists>g. M (drop i text) g))"
    unfolding find_checkbox_iff by (rule re_search_by_offsets(2) [OF m n])
  have c: "dict_get (extract_treatment_info text) ''injection'' =
      Some (find_checkbox (checkbox_pattern ''INJECTION'') text)"
    by (simp add: extract_treatment_info_def)
  have d: "dict_get (extract_treatment_info text) ''exercise_therapy'' =
      Some (find_checkbox (checkbox_pattern ''Exercise Therapy'') text)"
    by (simp add: extract_treatment_info_def)
  have e: "\<forall>data. parse_ocr_output init text = Inr data \<longrightarrow>
      dict_get data ''treatment_details'' = Some (extract_treatment_info text)"
    unfolding parse_ocr_output_Inr by auto
  show ?thesis using a b c d e unfolding M_def by (intro conjI)
qed

theorem checkbox_reads_yes_or_no_witness:
  "find_checkbox (checkbox_pattern ''INJECTION'') ''INJECTION : YES'' = PyStr ''YES'' \<and>
   (\<exists>i\<le>length ''INJECTION : YES''.
          (\<exists>sp1 sp2 rest. drop i ''INJECTION : YES'' = ''INJECTION'' @ sp1 @ CHR '':'' # sp2 @ ''YES'' @ rest \<and>
             list_all is_space sp1 \<and> list_all is_space sp2 \<and> (''YES'' = ''YES'' \<or> ''YES'' = ''NO'')) \<and>
          (\<forall>j<i. \<not> (\<exists>tok' sp1 sp2 rest. drop j ''INJECTION : YES'' = ''INJECTION'' @ sp1 @ CHR '':'' # sp2 @ tok' @ rest \<and>
             list_all is_space sp1 \<and> list_all is_space sp2 \<and> (tok' = ''YES'' \<or> tok' = ''NO'')))) \<and>
   extract_treatment_info ''INJECTION : YES'' =
     [(''date'', PyNone), (''injection'', PyStr ''YES''), (''exercise_therapy'', PyNone)] \<and>
   extract_treatment_info ''INJECTION : MAYBE'' =
     [(''date'', PyNone), (''injection'', PyNone), (''exercise_therapy'', PyNone)]"
proof -
  have a: "find_checkbox (checkbox_pattern ''INJECTION'') ''INJECTION : YES'' = PyStr ''YES''"
    by code_simp
  note b = iffD1 [OF conjunct1 [OF checkbox_reads_yes_or_no] a]
  show ?thesis using a b checkbox_examples by (intro conjI)
qed

text \<open>
  Claim C4 as stated fails: the token after the colon is not compared as a whole. The
  token \<^verbatim>\<open>NOPE\<close> is neither \<^verbatim>\<open>YES\<close> nor \<^verbatim>\<open>NO\<close>, and the field is not \<^verbatim>\<open>None\<close>: it is \<^verbatim>\<open>NO\<close>.
\<close>

theorem checkbox_token_is_not_compared_whole:
  "extract_treatment_info ''INJECTION : NOPE'' =
     [(''date'', PyNone), (''injection'', PyStr ''NO''), (''exercise_therapy'', PyNone)]"
  by code_simp

section \<open>Paragraph fields\<close>

text \<open>
  Claim C2, as amended. On the text of the claim (\<^verbatim>\<open>Patient changes since last treatment:
  feeling better\<close>, a line feed, \<^verbatim>\<open>sleeping more\<close>, a line feed, \<^verbatim>\<open>Date : 2024-01-01\<close>) the
  field \<^verbatim>\<open>since_last_treatment\<close> is \<^verbatim>\<open>feeling better\<close>: the lazy group of
  \<^verbatim>\<open>LABEL:(.*?)(?=\n\S)\<close> ends before the first line feed that is followed by a character
  other than white space, here before the line \<^verbatim>\<open>sleeping more\<close>. The group goes on across
  a line feed only when the next line starts with white space: with that line indented
  by two spaces the value is both lines.
\<close>

theorem multiline_capture_example:
  "parse_ocr_output init
     (''Patient changes since last treatment: feeling better'' @ [nl] @ ''sleeping more'' @ [nl] @
      ''Date : 2024-01-01'') =
     Inr [(''patient_details'', [(''patient_name'', PyNone), (''dob'', PyNone)]),
          (''treatment_details'',
             [(''date'', PyStr ''2024-01-01''), (''injection'', PyNone), (''exercise_therapy'', PyNone)]),
          (''difficulty_ratings'',
             [(''bending_or_stooping'', PyNone), (''putting_on_shoes'', PyNone), (''sleeping'', PyNone),
              (''standing_for_an_hour'', PyNone), (''stairs'', PyNone),
              (''walking_through_store'', PyNone), (''driving'', PyNone), (''preparing_meal'', PyNone),
              (''yard_work'', PyNone), (''picking_up_items'', PyNone)]),
          (''patient_changes'',
             [(''since_last_treatment'', PyStr ''feeling better''),
              (''since_start_of_treatment'', PyNone), (''last_3_days'', PyNone)]),
          (''pain_symptoms'',
             [(''pain'', PyNone), (''numbness'', PyNone), (''tingling'', PyNone), (''burning'', PyNone),
              (''tightness'', PyNone)]),
          (''medical_assistant_data'',
             [(''blood_pressure'', PyNone), (''hr'', PyNone), (''weight'', PyNone), (''height'', PyNone),
              (''spo2'', PyNone), (''temperature'', PyNone), (''blood_glucose'', PyNone),
              (''respirations'', PyNone)])] \<and>
   extract_patient_changes
     (''Patient changes since last treatment: feeling better'' @ [nl] @ ''  sleeping more'' @ [nl] @
      ''Date : 2024-01-01'') =
     [(''since_last_treatment'', PyStr (''feeling better'' @ [nl] @ ''  sleeping more'')),
      (''since_start_of_treatment'', PyNone), (''last_3_days'', PyNone)]"
proof (rule conjI)
  show "parse_ocr_output init
     (''Patient changes since last treatment: feeling better'' @ [nl] @ ''sleeping more'' @ [nl] @
      ''Date : 2024-01-01'') =
     Inr [(''patient_details'', [(''patient_name'', PyNone), (''dob'', PyNone)]),
          (''treatment_details'',
             [(''date'', PyStr ''2024-01-01''), (''injection'', PyNone), (''exercise_therapy'', PyNone)]),
          (''difficulty_ratings'',
             [(''bending_or_stooping'', PyNone), (''putting_on_shoes'', PyNone), (''sleeping'', PyNone),
              (''standing_for_an_hour'', PyNone), (''stairs'', PyNone),
              (''walking_through_store'', PyNone), (''driving'', PyNone), (''preparing_meal'', PyNone),
              (''yard_work'', PyNone), (''picking_up_items'', PyNone)]),
          (''patient_changes'',
             [(''since_last_treatment'', PyStr ''feeling better''),
              (''since_start_of_treatment'', PyNone), (''last_3_days'', PyNone)]),
          (''pain_symptoms'',
             [(''pain'', PyNone), (''numbness'', PyNone), (''tingling'', PyNone), (''burning'', PyNone),
              (''tightness'', PyNone)]),
          (''medical_assistant_data'',
             [(''blood_pressure'', PyNone), (''hr'', PyNone), (''weight'', PyNone), (''height'', PyNone),
              (''spo2'', PyNone), (''temperature'', PyNone), (''blood_glucose'', PyNone),
              (''respirations'', PyNone)])]"
    by code_simp
  show "extract_patient_changes
     (''Patient changes since last treatment: feeling better'' @ [nl] @ ''  sleeping more'' @ [nl] @
      ''Date : 2024-01-01'') =
     [(''since_last_treatment'', PyStr (''feeling better'' @ [nl] @ ''  sleeping more'')),
      (''since_start_of_treatment'', PyNone), (''last_3_days'', PyNone)]"
    by code_simp
qed

text \<open>
  Claim C2 as stated fails: on its text the value is not the two lines
  \<^verbatim>\<open>feeling better\<close> and \<^verbatim>\<open>sleeping more\<close>.
\<close>

theorem multiline_capture_stops_at_next_line:
  "dict_get (extract_patient_changes
       (''Patient changes since last treatment: feeling better'' @ [nl] @ ''sleeping more'' @ [nl] @
        ''Date : 2024-01-01'')) ''since_last_treatment''
     \<noteq> Some (PyStr (''feeling better'' @ [nl] @ ''sleeping more''))"
  by code_simp

section \<open>Exceptions\<close>

text \<open>
  Claim C6: \<^verbatim>\<open>parse_ocr_output\<close> returns a record for every text and never raises. The code
  does not do this. The five rules with \<^verbatim>\<open>(\d+)\<close> capture a run of digits of any length and
  pass it to \<^verbatim>\<open>int\<close>, which raises \<^verbatim>\<open>ValueError\<close> on more than 4300 digits; nothing catches
  it, so no record is returned. On \<^verbatim>\<open>HR:\<close> followed by 4301 digits:
\<close>

theorem long_number_raises:
  "parse_ocr_output init (''HR:'' @ replicate 4301 CHR ''1'') = Inl ValueError"
proof -
  have n: "(4301::nat) = Suc 4300" by simp
  have t: "''HR:'' @ replicate 4301 CHR ''1'' = ''HR'' @ CHR '':'' # replicate (Suc 4300) CHR ''1''"
    unfolding n by simp
  have "max_str_digits \<le> 4300" by (simp add: max_str_digits_def)
  then have f: "find_numeric_value (number_pattern ''HR'') (''HR:'' @ replicate 4301 CHR ''1'') = Inl ValueError"
    unfolding t by (rule find_number_long)
  have ma: "extract_ma_data (''HR:'' @ replicate 4301 CHR ''1'') = Inl ValueError"
    unfolding extract_ma_data_def f on_ok_Inr on_ok_Inl ..
  obtain dr where dr: "extract_difficulty_ratings init (''HR:'' @ replicate 4301 CHR ''1'') = Inr dr"
    using extract_difficulty_ratings_total by blast
  obtain ps where ps: "extract_pain_symptoms init (''HR:'' @ replicate 4301 CHR ''1'') = Inr ps"
    using extract_pain_symptoms_total by blast
  show ?thesis unfolding parse_ocr_output_def dr ps ma on_ok_Inr on_ok_Inl ..
qed

end
